theory Spec2Isabelle
  imports Complex_Main "HOL-Library.Sublist"
begin

section \<open>JavaScript values and objects\<close>

text \<open>
  The values that configuration files, request bodies and document metadata hold.
  A string is the list of its code units (\<^typ>\<open>char\<close> covers the units below 256);
  a number is kept as the rational it denotes, and the code below only asks for its
  type and whether it is zero. An object is the list of its own properties in
  insertion order.
\<close>

datatype jsval =
    JUndefined
  | JNull
  | JBool bool
  | JNum rat
  | JStr string
  | JArr "jsval list"
  | JObj "(string \<times> jsval) list"

type_synonym 'v props = "(string \<times> 'v) list"

text \<open>
  \<open>obj[k]\<close> on a property list. Lists built by the functions below never repeat a
  key; on a list that does, a later entry shadows an earlier one, as a later
  assignment would.
\<close>

fun getProp :: "'v props \<Rightarrow> string \<Rightarrow> 'v option" where
  "getProp [] k = None"
| "getProp ((k', v) # ps) k =
     (case getProp ps k of
        Some w \<Rightarrow> Some w
      | None \<Rightarrow> if k' = k then Some v else None)"

text \<open>
  Defining the own property \<open>k\<close>: overwrite in place, or append a new property. This
  is what object spread does for every key, and what \<open>obj[k] = v\<close> does for every
  key but one.
\<close>

definition setProp :: "string \<Rightarrow> 'v \<Rightarrow> 'v props \<Rightarrow> 'v props" where
  "setProp k v ps =
     (if k \<in> fst ` set ps
      then map (\<lambda>(k', w). if k' = k then (k', v) else (k', w)) ps
      else ps @ [(k, v)])"

text \<open>
  \<open>obj[key] = value\<close> on an object created by a literal. The name \<open>__proto__\<close> is an
  accessor inherited from \<open>Object.prototype\<close>: the assignment runs its setter, which
  replaces the prototype when the value is an object or \<open>null\<close> and does nothing
  otherwise; in neither case does an own property appear. Where the code later
  reads a property of such an object (\<open>source\<close>, \<open>chunk_id\<close>, \<open>id\<close>), the
  prototype can only have become \<open>null\<close> or an array, which has no property of
  these names.
\<close>

definition assignProp :: "string \<Rightarrow> 'v \<Rightarrow> 'v props \<Rightarrow> 'v props" where
  "assignProp key value ps = (if key = ''__proto__'' then ps else setProp key value ps)"

text \<open>Decimal digits of a number: the name of an array index as a property key, and the
  rendering of a count in a template string.\<close>

fun decimal :: "nat \<Rightarrow> string" where
  "decimal n =
     (if n < 10 then [char_of (48 + n)]
      else decimal (n div 10) @ [char_of (48 + n mod 10)])"

declare decimal.simps [simp del]

definition indexed :: "'v list \<Rightarrow> 'v props" where
  "indexed vs = zip (map decimal [0..<length vs]) vs"

text \<open>
  The own enumerable properties of a value, as object spread and
  \<open>Object.entries\<close> see them: the members of an object, the elements of an
  array under their indices, the characters of a string under theirs, and nothing
  for the other primitives.
\<close>

fun ownEntries :: "jsval \<Rightarrow> jsval props" where
  "ownEntries (JObj ps) = ps"
| "ownEntries (JArr vs) = indexed vs"
| "ownEntries (JStr s) = indexed (map (\<lambda>c. JStr [c]) s)"
| "ownEntries _ = []"

text \<open>\<open>{...cfg, ...v}\<close>\<close>

definition spread :: "jsval props \<Rightarrow> jsval \<Rightarrow> jsval props" where
  "spread cfg v = fold (\<lambda>(k, x). setProp k x) (ownEntries v) cfg"

text \<open>
  \<open>v[k]\<close> for a key that is neither an index, \<open>length\<close> nor inherited: the own
  property, or \<open>undefined\<close>.
\<close>

definition getMember :: "jsval \<Rightarrow> string \<Rightarrow> jsval" where
  "getMember v k = (case getProp (ownEntries v) k of Some x \<Rightarrow> x | None \<Rightarrow> JUndefined)"

text \<open>Truthiness, as \<open>if (v)\<close>, \<open>!v\<close> and \<open>a || b\<close> test it.\<close>

fun truthy :: "jsval \<Rightarrow> bool" where
  "truthy JUndefined = False"
| "truthy JNull = False"
| "truthy (JBool b) = b"
| "truthy (JNum n) = (n \<noteq> 0)"
| "truthy (JStr s) = (s \<noteq> [])"
| "truthy (JArr vs) = True"
| "truthy (JObj ps) = True"

text \<open>\<open>a || b\<close>\<close>

definition js_or :: "jsval \<Rightarrow> jsval \<Rightarrow> jsval" where
  "js_or a b = (if truthy a then a else b)"

section \<open>ConfigLoader\<close>

definition moduleName :: string where
  "moduleName = ''karl-chat''"

definition getDefaults :: "jsval props" where
  "getDefaults =
     [(''OLLAMA_HOST'', JStr ''localhost''),
      (''OLLAMA_PORT'', JStr ''11434''),
      (''DEFAULT_MODEL'', JStr ''llama3.2''),
      (''NEO4J_URI'', JStr ''bolt://localhost:7687''),
      (''NEO4J_USERNAME'', JStr ''neo4j''),
      (''NEO4J_PASSWORD'', JStr ''password''),
      (''SERVER_PORT'', JNum 5000),
      (''CORS_ORIGIN'', JStr ''http://localhost:3000''),
      (''LOG_LEVEL'', JStr ''info'')]"

text \<open>
  What the loader finds at one path: no file, a file that cannot be read or parsed
  (the exception is caught and logged), or the value \<open>JSON.parse\<close> returns.
\<close>

datatype cfgfile = Missing | Unparsable | Parsed jsval

text \<open>
  The body of the loop of \<open>loadParentConfigs\<close> for one directory. Reading a property
  of \<open>null\<close> throws inside the \<open>try\<close>, after the first merge has been assigned.
\<close>

fun mergeParent :: "jsval props \<Rightarrow> cfgfile \<Rightarrow> jsval props" where
  "mergeParent cfg Missing = cfg"
| "mergeParent cfg Unparsable = cfg"
| "mergeParent cfg (Parsed parentConfig) =
     (let cfg1 = spread cfg parentConfig in
      if parentConfig = JNull \<or> parentConfig = JUndefined then cfg1
      else if truthy (getMember parentConfig moduleName)
           then spread cfg1 (getMember parentConfig moduleName)
           else cfg1)"

definition maxLevels :: nat where
  "maxLevels = 5"

text \<open>
  The walk up the directory tree. \<open>dirs\<close> lists what is at \<open>config.json\<close> in the
  parent of the module's directory, in its grandparent, and so on up to the root:
  when the list is exhausted the root has been reached and the loop breaks.
\<close>

fun walkParents :: "nat \<Rightarrow> cfgfile list \<Rightarrow> jsval props \<Rightarrow> jsval props" where
  "walkParents level dirs cfg =
     (if level < maxLevels then
        (case dirs of
           [] \<Rightarrow> cfg
         | f # rest \<Rightarrow> walkParents (Suc level) rest (mergeParent cfg f))
      else cfg)"

declare walkParents.simps [simp del]

definition loadParentConfigs :: "cfgfile list \<Rightarrow> jsval props \<Rightarrow> jsval props" where
  "loadParentConfigs dirs cfg = walkParents 0 dirs cfg"

text \<open>
  \<open>loadLocalConfig\<close> over the candidate paths in order: the first file that parses
  is merged and ends the loop.
\<close>

fun loadLocalConfig :: "cfgfile list \<Rightarrow> jsval props \<Rightarrow> jsval props" where
  "loadLocalConfig [] cfg = cfg"
| "loadLocalConfig (Missing # fs) cfg = loadLocalConfig fs cfg"
| "loadLocalConfig (Unparsable # fs) cfg = loadLocalConfig fs cfg"
| "loadLocalConfig (Parsed localConfig # fs) cfg = spread cfg localConfig"

definition envMapping :: "string props" where
  "envMapping =
     [(''OLLAMA_HOST'', ''OLLAMA_HOST''),
      (''OLLAMA_PORT'', ''OLLAMA_PORT''),
      (''DEFAULT_MODEL'', ''DEFAULT_MODEL''),
      (''NEO4J_URI'', ''NEO4J_URI''),
      (''NEO4J_USERNAME'', ''NEO4J_USERNAME''),
      (''NEO4J_PASSWORD'', ''NEO4J_PASSWORD''),
      (''SERVER_PORT'', ''PORT''),
      (''CORS_ORIGIN'', ''CORS_ORIGIN''),
      (''LOG_LEVEL'', ''LOG_LEVEL'')]"

text \<open>
  One step of the \<open>forEach\<close> of \<open>loadEnvironmentConfig\<close>; \<open>env\<close> is
  \<open>process.env\<close>, whose values are strings, and the test is their truthiness. The
  keys assigned are those of the table, all ordinary names.
\<close>

definition envStep :: "string props \<Rightarrow> string \<times> string \<Rightarrow> jsval props \<Rightarrow> jsval props" where
  "envStep env = (\<lambda>(configKey, envKey) cfg.
     (case getProp env envKey of
        None \<Rightarrow> cfg
      | Some v \<Rightarrow> if v \<noteq> [] then setProp configKey (JStr v) cfg else cfg))"

definition loadEnvironmentConfig :: "string props \<Rightarrow> jsval props \<Rightarrow> jsval props" where
  "loadEnvironmentConfig env cfg = fold (envStep env) envMapping cfg"

text \<open>
  The files the loader looks at: the \<open>config.json\<close> of each ancestor directory, and
  the three local candidates \<open>../configs/static_settings.JSON\<close>,
  \<open>../configs/config.json\<close> and \<open>../config.json\<close>.
\<close>

record filesystem =
  ancestors :: "cfgfile list"
  localCandidates :: "cfgfile list"

definition loadConfig :: "filesystem \<Rightarrow> string props \<Rightarrow> jsval props" where
  "loadConfig fs env =
     loadEnvironmentConfig env
       (loadLocalConfig (localCandidates fs)
          (loadParentConfigs (ancestors fs) getDefaults))"


text \<open>\<open>this.config[key]\<close>, and likewise any read of a named property of a plain object.\<close>

definition propValue :: "jsval props \<Rightarrow> string \<Rightarrow> jsval" where
  "propValue cfg key = (case getProp cfg key of Some v \<Rightarrow> v | None \<Rightarrow> JUndefined)"

definition get :: "jsval props \<Rightarrow> string \<Rightarrow> jsval \<Rightarrow> jsval" where
  "get cfg key defaultValue =
     (if propValue cfg key \<noteq> JUndefined then propValue cfg key else defaultValue)"

text \<open>
  Upper-casing of the letters \<open>a\<close> to \<open>z\<close>, other characters left as they are: the
  comparison of a regular expression with the \<open>i\<close> flag.
\<close>

definition toUpperChar :: "char \<Rightarrow> char" where
  "toUpperChar c =
     (let n = (of_char c :: nat) in if 97 \<le> n \<and> n \<le> 122 then char_of (n - 32) else c)"








datatype error = Error string

fun join :: "string \<Rightarrow> string list \<Rightarrow> string" where
  "join sep [] = []"
| "join sep [x] = x"
| "join sep (x # y # ys) = x @ sep @ join sep (y # ys)"

definition required :: "string list" where
  "required = [''OLLAMA_HOST'', ''OLLAMA_PORT'', ''DEFAULT_MODEL'']"

definition validate :: "jsval props \<Rightarrow> error + bool" where
  "validate cfg =
     (let missing = filter (\<lambda>key. \<not> truthy (propValue cfg key)) required in
      if length missing > 0
      then Inl (Error (''Missing required configuration: '' @ join '', '' missing))
      else Inr True)"

section \<open>parseThinkingResponse\<close>

text \<open>
  A regular expression with the \<open>i\<close> flag compares characters after mapping both to
  upper case; a character outside ASCII never equals an ASCII one.
\<close>

fun stripPrefixCI :: "string \<Rightarrow> string \<Rightarrow> string option" where
  "stripPrefixCI [] s = Some s"
| "stripPrefixCI (p # ps) [] = None"
| "stripPrefixCI (p # ps) (c # cs) =
     (if toUpperChar p = toUpperChar c then stripPrefixCI ps cs else None)"

text \<open>
  The search of the matcher: try \<open>m\<close> at the current position, and on failure move
  one character on. The result is the text stepped over and what \<open>m\<close> returned.
  With \<open>m\<close> the rest of a pattern, this is also the lazy \<open>[\s\S]*?\<close> in front of it.
\<close>

fun scan :: "(string \<Rightarrow> 'a option) \<Rightarrow> string \<Rightarrow> (string \<times> 'a) option" where
  "scan m [] = map_option (Pair []) (m [])"
| "scan m (c # cs) =
     (case m (c # cs) of
        Some r \<Rightarrow> Some ([], r)
      | None \<Rightarrow> map_option (\<lambda>(skipped, r). (c # skipped, r)) (scan m cs))"

text \<open>
  \<open>/<think>([\s\S]*?)<\/think>/i\<close>: the text before the match, group 1, and the text
  after the match.
\<close>

definition openTag :: string where
  "openTag = ''<think>''"

definition closeTag :: string where
  "closeTag = ''</think>''"

definition thinkRegex :: "string \<Rightarrow> (string \<times> string \<times> string) option" where
  "thinkRegex s =
     scan (\<lambda>t. case stripPrefixCI openTag t of
                 None \<Rightarrow> None
               | Some u \<Rightarrow> scan (stripPrefixCI closeTag) u) s"

text \<open>
  \<open>/^(phrase[\s\S]*?)\n\n([^]*)/i\<close>: groups 1 and 2. Group 1 is the text as it stands
  in the input.
\<close>

definition introPattern :: "string \<Rightarrow> string \<Rightarrow> (string \<times> string) option" where
  "introPattern phrase s =
     (case stripPrefixCI phrase s of
        None \<Rightarrow> None
      | Some rest \<Rightarrow>
          (case scan (stripPrefixCI [CHR 0x0A, CHR 0x0A]) rest of
             None \<Rightarrow> None
           | Some (mid, after) \<Rightarrow> Some (take (length phrase) s @ mid, after)))"

definition thinkingPatterns :: "string list" where
  "thinkingPatterns =
     [''Let me think about this'', ''I need to consider'', ''Thinking through this'']"

definition isWhiteSpace :: "char \<Rightarrow> bool" where
  "isWhiteSpace c \<longleftrightarrow>
     c \<in> set [CHR 0x09, CHR 0x0A, CHR 0x0B, CHR 0x0C, CHR 0x0D, CHR 0x20, CHR 0xA0]"

definition trim :: "string \<Rightarrow> string" where
  "trim s = rev (dropWhile isWhiteSpace (rev (dropWhile isWhiteSpace s)))"

record parsed =
  thinking :: "string option"
  response :: string
  hasThinking :: bool

fun tryPatterns :: "string list \<Rightarrow> string \<Rightarrow> parsed option" where
  "tryPatterns [] s = None"
| "tryPatterns (pattern # rest) s =
     (case introPattern pattern s of
        Some (g1, g2) \<Rightarrow>
          if length g1 > 50
          then Some \<lparr>thinking = Some (trim g1), response = trim g2, hasThinking = True\<rparr>
          else tryPatterns rest s
      | None \<Rightarrow> tryPatterns rest s)"

definition parseThinkingResponse :: "string \<Rightarrow> parsed" where
  "parseThinkingResponse resp =
     (case thinkRegex resp of
        Some (before, g1, after) \<Rightarrow>
          \<lparr>thinking = Some (trim g1), response = trim (before @ after), hasThinking = True\<rparr>
      | None \<Rightarrow>
          (case tryPatterns thinkingPatterns resp of
             Some r \<Rightarrow> r
           | None \<Rightarrow> \<lparr>thinking = None, response = trim resp, hasThinking = False\<rparr>))"


section \<open>Document metadata\<close>

record document =
  pageContent :: string
  metadata :: jsval

text \<open>
  What the code takes from the JavaScript runtime: \<open>JSON.stringify\<close> (\<open>None\<close> when
  it throws), \<open>String(v)\<close>, the clock and the random source. The argument of the
  last three is the position of the call in its loop: each call reads them afresh.
\<close>

record runtime =
  stringify :: "jsval \<Rightarrow> string option"
  toStr :: "jsval \<Rightarrow> string"
  dateNow :: "nat \<Rightarrow> nat"
  toISOString :: "nat \<Rightarrow> string"
  randomSuffix :: "nat \<Rightarrow> string"

datatype jstype = TUndefined | TObject | TBoolean | TNumber | TString

fun typeof :: "jsval \<Rightarrow> jstype" where
  "typeof JUndefined = TUndefined"
| "typeof JNull = TObject"
| "typeof (JBool b) = TBoolean"
| "typeof (JNum n) = TNumber"
| "typeof (JStr s) = TString"
| "typeof (JArr vs) = TObject"
| "typeof (JObj ps) = TObject"


text \<open>\<open>Object.entries(doc.metadata || {})\<close>\<close>

definition metadataEntries :: "jsval \<Rightarrow> jsval props" where
  "metadataEntries md = ownEntries (js_or md (JObj []))"




text \<open>
  The cleaning step written out inside \<open>initializeRAG\<close>. Here \<open>JSON.stringify\<close> is
  not guarded: when it throws, the exception leaves the \<open>map\<close>.
\<close>

definition inlineEntry ::
  "runtime \<Rightarrow> string \<times> jsval \<Rightarrow> error + jsval props \<Rightarrow> error + jsval props" where
  "inlineEntry rt = (\<lambda>(key, value) acc.
     (case acc of
        Inl e \<Rightarrow> Inl e
      | Inr cleanedMetadata \<Rightarrow>
          if typeof value = TString \<or> typeof value = TNumber \<or> typeof value = TBoolean
          then Inr (assignProp key value cleanedMetadata)
          else if value = JNull \<or> value = JUndefined then Inr cleanedMetadata
          else (case stringify rt value of
                  Some json \<Rightarrow> Inr (assignProp key (JStr json) cleanedMetadata)
                | None \<Rightarrow> Inl (Error ''Converting circular structure to JSON''))))"

definition inlineClean :: "runtime \<Rightarrow> nat \<Rightarrow> document \<Rightarrow> error + document" where
  "inlineClean rt index doc =
     (case fold (inlineEntry rt) (metadataEntries (metadata doc)) (Inr []) of
        Inl e \<Rightarrow> Inl e
      | Inr m0 \<Rightarrow>
          (let m1 = setProp ''source''
                      (js_or (js_or (propValue m0 ''source'') (getMember (metadata doc) ''source''))
                             (JStr ''unknown'')) m0;
               m2 = setProp ''id''
                      (js_or (propValue m1 ''id'')
                             (JStr (''doc_'' @ decimal (dateNow rt index) @ ''_'' @ randomSuffix rt index))) m1
           in Inr \<lparr>pageContent = pageContent doc, metadata = JObj m2\<rparr>))"

fun inlineCleanAll :: "runtime \<Rightarrow> nat \<Rightarrow> document list \<Rightarrow> error + document list" where
  "inlineCleanAll rt index [] = Inr []"
| "inlineCleanAll rt index (doc # docs) =
     (case inlineClean rt index doc of
        Inl e \<Rightarrow> Inl e
      | Inr d \<Rightarrow>
          (case inlineCleanAll rt (Suc index) docs of
             Inl e \<Rightarrow> Inl e
           | Inr ds \<Rightarrow> Inr (d # ds)))"


section \<open>The server\<close>

text \<open>
  The module-level variables of the server, and a record of the calls made to the
  outside (model, page loader, splitter, vector store) and of the per-URL errors
  written to the console, in the order they happened.
\<close>

datatype event =
    ModelInvoked jsval
  | PageRequested jsval
  | PageFailed jsval string
  | SplitRequested "document list"
  | StoreRequested "document list"
  | ChainInvoked jsval jsval

record server =
  vectorstore :: "document list option"
  retriever :: "jsval option"
  chatModel :: "string option"
  isInitializing :: bool
  initializationError :: "string option"
  trace :: "event list"

text \<open>
  The configuration the server was started with and the capabilities it calls; each
  returns its result or the error it throws.
\<close>

record world =
  config :: "jsval props"
  rt :: runtime
  invokeModel :: "jsval \<Rightarrow> error + string"
  loadPage :: "jsval \<Rightarrow> error + document list"
  splitDocuments :: "jsval \<Rightarrow> jsval \<Rightarrow> document list \<Rightarrow> error + document list"
  fromDocuments :: "document list \<Rightarrow> error + document list"
  invokeChain :: "jsval \<Rightarrow> jsval \<Rightarrow> error + string"

definition defaultUrls :: jsval where
  "defaultUrls =
     JArr [JStr ''https://ollama.com'',
           JStr ''https://ollama.com/blog/windows-preview'',
           JStr ''https://ollama.com/blog/openai-compatibility'']"

text \<open>\<open>for (const url of urls)\<close>: what the loop ranges over, or the \<open>TypeError\<close>.\<close>

fun iterate :: "jsval \<Rightarrow> error + jsval list" where
  "iterate (JArr vs) = Inr vs"
| "iterate (JStr s) = Inr (map (\<lambda>c. JStr [c]) s)"
| "iterate _ = Inl (Error ''urls is not iterable'')"

text \<open>
  The loop over the URLs: a page that loads adds its documents, a page that fails
  is reported on the console and the loop goes on.
\<close>

fun loadDocuments ::
  "world \<Rightarrow> jsval list \<Rightarrow> document list \<times> event list \<Rightarrow> document list \<times> event list" where
  "loadDocuments w [] acc = acc"
| "loadDocuments w (url # urls) (docs, tr) =
     (case loadPage w url of
        Inr loadedDocs \<Rightarrow> loadDocuments w urls (docs @ loadedDocs, tr @ [PageRequested url])
      | Inl (Error msg) \<Rightarrow>
          loadDocuments w urls (docs, tr @ [PageRequested url, PageFailed url msg]))"

definition ollamaAddress :: "world \<Rightarrow> string" where
  "ollamaAddress w =
     toStr (rt w) (get (config w) ''OLLAMA_HOST'' JUndefined) @ '':'' @
     toStr (rt w) (get (config w) ''OLLAMA_PORT'' JUndefined)"

text \<open>The \<open>try\<close> block of \<open>initializeRAG\<close>.\<close>

definition initializeBody :: "world \<Rightarrow> server \<Rightarrow> (error + unit) \<times> server" where
  "initializeBody w s =
     (let s1 = s\<lparr>chatModel := Some (''http://'' @ ollamaAddress w),
                  trace := trace s @ [ModelInvoked (JStr ''Hello'')]\<rparr> in
      case invokeModel w (JStr ''Hello'') of
        Inl e \<Rightarrow>
          (Inl (Error (''Cannot connect to Ollama at '' @ ollamaAddress w @
                       ''. Make sure Ollama is running.'')), s1)
      | Inr hello \<Rightarrow>
          (case iterate (get (config w) ''DOCUMENT_URLS'' defaultUrls) of
             Inl e \<Rightarrow> (Inl e, s1)
           | Inr urls \<Rightarrow>
               (let (docs, tr) = loadDocuments w urls ([], trace s1);
                    s2 = s1\<lparr>trace := tr\<rparr> in
                if length docs = 0
                then (Inl (Error ''No documents were successfully loaded from URLs''), s2)
                else
                  (let s3 = s2\<lparr>trace := trace s2 @ [SplitRequested docs]\<rparr> in
                   case splitDocuments w (get (config w) ''CHUNK_SIZE'' (JNum 1000))
                          (get (config w) ''CHUNK_OVERLAP'' (JNum 200)) docs of
                     Inl e \<Rightarrow> (Inl e, s3)
                   | Inr docSplits \<Rightarrow>
                       (case inlineCleanAll (rt w) 0 docSplits of
                          Inl e \<Rightarrow> (Inl e, s3)
                        | Inr cleanedDocSplits \<Rightarrow>
                            (let s4 = s3\<lparr>trace := trace s3 @ [StoreRequested cleanedDocSplits]\<rparr> in
                             case fromDocuments w cleanedDocSplits of
                               Inl e \<Rightarrow>
                                 (Inl (Error (''Cannot connect to Neo4j at '' @
                                        toStr (rt w) (get (config w) ''NEO4J_URI'' JUndefined) @
                                        ''. Make sure Neo4j is running with correct credentials.'')),
                                  s4)
                             | Inr store \<Rightarrow>
                                 (Inr (),
                                  s4\<lparr>vectorstore := Some store,
                                      retriever := Some (get (config w) ''RETRIEVER_K'' (JNum 4))\<rparr>)))))))"

text \<open>
  \<open>initializeRAG\<close>: the guard, the \<open>try\<close> block, the \<open>catch\<close> that records the
  message and throws again, and the \<open>finally\<close> that clears the flag.
\<close>

definition initializeRAG :: "world \<Rightarrow> server \<Rightarrow> (error + unit) \<times> server" where
  "initializeRAG w s =
     (if isInitializing s then (Inr (), s)
      else
        (let s0 = s\<lparr>isInitializing := True, initializationError := None\<rparr> in
         case initializeBody w s0 of
           (Inr u, s') \<Rightarrow> (Inr u, s'\<lparr>isInitializing := False\<rparr>)
         | (Inl (Error msg), s') \<Rightarrow>
             (Inl (Error msg), s'\<lparr>initializationError := Some msg, isInitializing := False\<rparr>)))"

record reply =
  status :: nat
  body :: jsval

text \<open>\<open>POST /api/initialize\<close>\<close>

definition initializeHandler :: "world \<Rightarrow> server \<Rightarrow> reply \<times> server" where
  "initializeHandler w s =
     (if vectorstore s \<noteq> None
      then (\<lparr>status = 200,
             body = JObj [(''success'', JBool True),
                          (''message'', JStr ''RAG system already initialized'')]\<rparr>, s)
      else
        (case initializeRAG w s of
           (Inr u, s') \<Rightarrow>
             (\<lparr>status = 200,
               body = JObj [(''success'', JBool True),
                            (''message'', JStr ''RAG system initialized successfully'')]\<rparr>, s')
         | (Inl (Error msg), s') \<Rightarrow>
             (\<lparr>status = 500,
               body = JObj [(''success'', JBool False),
                            (''error'', JStr msg),
                            (''details'', JStr ''Check server logs for more information'')]\<rparr>, s')))"

definition thinkingSuffix :: string where
  "thinkingSuffix =
     [CHR 0x0A, CHR 0x0A] @
     ''Think step by step and show your reasoning process. Format your response as:'' @
     [CHR 0x0A, CHR 0x0A] @ ''<think>'' @ [CHR 0x0A] @
     ''[Your detailed thinking process, analysis, and reasoning steps here]'' @
     [CHR 0x0A] @ ''</think>'' @ [CHR 0x0A, CHR 0x0A] @
     ''[Your final, clear answer here]''"

definition createThinkingPrompt :: "runtime \<Rightarrow> jsval \<Rightarrow> jsval \<Rightarrow> jsval" where
  "createThinkingPrompt r originalPrompt enableThinking =
     (if \<not> truthy enableThinking then originalPrompt
      else JStr (toStr r originalPrompt @ thinkingSuffix))"

text \<open>A destructured field with the default \<open>true\<close>: the default replaces \<open>undefined\<close> only.\<close>

definition withDefaultTrue :: "jsval \<Rightarrow> jsval" where
  "withDefaultTrue v = (if v = JUndefined then JBool True else v)"

definition parsedFields :: "parsed \<Rightarrow> jsval props" where
  "parsedFields p =
     [(''thinking'', (case thinking p of None \<Rightarrow> JNull | Some t \<Rightarrow> JStr t)),
      (''response'', JStr (response p)),
      (''hasThinking'', JBool (hasThinking p))]"

definition beforeRagPrompt :: string where
  "beforeRagPrompt = ''What is {topic}? Provide a comprehensive but concise explanation.''"

definition ragPrompt :: string where
  "ragPrompt =
     ''Answer the question based only on the following context:'' @ [CHR 0x0A, CHR 0x0A] @
     ''{context}'' @ [CHR 0x0A, CHR 0x0A] @ ''Question: {question}'' @ [CHR 0x0A, CHR 0x0A] @
     ''Provide a comprehensive answer based on the context provided.''"

text \<open>
  Destructuring \<open>req.body\<close> when it is \<open>null\<close> or \<open>undefined\<close> throws inside the
  \<open>try\<close> of the handler; this is the message of that \<open>TypeError\<close>.
\<close>

definition destructureError :: "string \<Rightarrow> jsval \<Rightarrow> string" where
  "destructureError field v =
     ''Cannot destructure property '' @ [CHR 0x27] @ field @ [CHR 0x27] @ '' of '' @
     [CHR 0x27] @ ''req.body'' @ [CHR 0x27] @ '' as it is '' @
     (if v = JNull then ''null'' else ''undefined'') @ ''.''"

text \<open>\<open>POST /api/chat/before-rag\<close>\<close>

definition beforeRagHandler :: "world \<Rightarrow> server \<Rightarrow> jsval \<Rightarrow> reply \<times> server" where
  "beforeRagHandler w s reqBody =
     (if reqBody = JNull \<or> reqBody = JUndefined
      then (\<lparr>status = 500,
             body = JObj [(''error'', JStr (''Internal server error: '' @
                                           destructureError ''topic'' reqBody))]\<rparr>, s)
      else
        (let topic = getMember reqBody ''topic'';
             enableThinking = withDefaultTrue (getMember reqBody ''enableThinking'') in
         if \<not> truthy topic
         then (\<lparr>status = 400, body = JObj [(''error'', JStr ''Topic is required'')]\<rparr>, s)
         else if chatModel s = None
         then (\<lparr>status = 503,
                body = JObj [(''error'', JStr ''Chat model not initialized''),
                             (''needsInitialization'', JBool True)]\<rparr>, s)
         else
           (let basePrompt = get (config w) ''BEFORE_RAG_PROMPT'' (JStr beforeRagPrompt);
                promptTemplate = createThinkingPrompt (rt w) basePrompt enableThinking;
                s1 = s\<lparr>trace := trace s @
                                 [ChainInvoked promptTemplate (JObj [(''topic'', topic)])]\<rparr> in
            case invokeChain w promptTemplate (JObj [(''topic'', topic)]) of
              Inl (Error msg) \<Rightarrow>
                (\<lparr>status = 500,
                  body = JObj [(''error'', JStr (''Internal server error: '' @ msg))]\<rparr>, s1)
            | Inr rawResponse \<Rightarrow>
                (\<lparr>status = 200,
                  body = JObj (parsedFields (parseThinkingResponse rawResponse) @
                               [(''method'', JStr ''before-rag''),
                                (''topic'', topic),
                                (''rawResponse'', JStr rawResponse)])\<rparr>, s1))))"

text \<open>
  \<open>POST /api/chat/with-rag\<close>. The chain retrieves the context through the retriever
  and then calls the model; both happen inside \<open>invokeChain\<close>.
\<close>

definition withRagHandler :: "world \<Rightarrow> server \<Rightarrow> jsval \<Rightarrow> reply \<times> server" where
  "withRagHandler w s reqBody =
     (if reqBody = JNull \<or> reqBody = JUndefined
      then (\<lparr>status = 500,
             body = JObj [(''error'', JStr (''Internal server error: '' @
                                           destructureError ''question'' reqBody))]\<rparr>, s)
      else
        (let question = getMember reqBody ''question'';
             enableThinking = withDefaultTrue (getMember reqBody ''enableThinking'') in
         if \<not> truthy question
         then (\<lparr>status = 400, body = JObj [(''error'', JStr ''Question is required'')]\<rparr>, s)
         else if retriever s = None \<or> chatModel s = None
         then (\<lparr>status = 503,
                body = JObj [(''error'', JStr ''RAG system not initialized''),
                             (''needsInitialization'', JBool True)]\<rparr>, s)
         else
           (let basePrompt = get (config w) ''RAG_PROMPT'' (JStr ragPrompt);
                promptTemplate = createThinkingPrompt (rt w) basePrompt enableThinking;
                s1 = s\<lparr>trace := trace s @
                                 [ChainInvoked promptTemplate (JObj [(''question'', question)])]\<rparr> in
            case invokeChain w promptTemplate (JObj [(''question'', question)]) of
              Inl (Error msg) \<Rightarrow>
                (\<lparr>status = 500,
                  body = JObj [(''error'', JStr (''Internal server error: '' @ msg))]\<rparr>, s1)
            | Inr rawResponse \<Rightarrow>
                (\<lparr>status = 200,
                  body = JObj (parsedFields (parseThinkingResponse rawResponse) @
                               [(''method'', JStr ''with-rag''),
                                (''question'', question),
                                (''rawResponse'', JStr rawResponse)])\<rparr>, s1))))"


section \<open>initializeRAG, await by await\<close>

text \<open>
  \<open>initializeRAG\<close> is an \<open>async\<close> function: it runs until its next \<open>await\<close>, and
  other callers run before it is resumed. This is where a call is suspended, with
  the local variables it still needs, or that it has settled, with its outcome:
  at \<open>await chatModel.invoke('Hello')\<close>; at \<open>await loader.load()\<close> for one URL,
  with the URLs still to come and the documents loaded so far; at
  \<open>await textSplitter.splitDocuments(docs)\<close>; at
  \<open>await Neo4jVectorStore.fromDocuments(cleanedDocSplits, ...)\<close>.
\<close>

datatype suspended =
    AwaitModel
  | AwaitPage jsval "jsval list" "document list"
  | AwaitSplit "document list"
  | AwaitStore "document list"
  | Settled "error + unit"

text \<open>
  Leaving the \<open>try\<close> block by an exception: the \<open>catch\<close> records the message and
  throws again, the \<open>finally\<close> clears the flag. Leaving it normally: the \<open>finally\<close>
  alone.
\<close>

fun failed :: "error \<Rightarrow> server \<Rightarrow> suspended \<times> server" where
  "failed (Error msg) s =
     (Settled (Inl (Error msg)), s\<lparr>initializationError := Some msg, isInitializing := False\<rparr>)"

definition succeeded :: "server \<Rightarrow> suspended \<times> server" where
  "succeeded s = (Settled (Inr ()), s\<lparr>isInitializing := False\<rparr>)"

text \<open>
  The head of the \<open>for\<close> loop: the next URL is requested, or the loop is over and
  the code after it runs up to the splitter.
\<close>

fun nextPage :: "jsval list \<Rightarrow> document list \<Rightarrow> server \<Rightarrow> suspended \<times> server" where
  "nextPage (url # urls) docs s =
     (AwaitPage url urls docs, s\<lparr>trace := trace s @ [PageRequested url]\<rparr>)"
| "nextPage [] docs s =
     (if length docs = 0
      then failed (Error ''No documents were successfully loaded from URLs'') s
      else (AwaitSplit docs, s\<lparr>trace := trace s @ [SplitRequested docs]\<rparr>))"

text \<open>A call: the guard, the two assignments, and the code up to the first \<open>await\<close>.\<close>

definition startInitialize :: "world \<Rightarrow> server \<Rightarrow> suspended \<times> server" where
  "startInitialize w s =
     (if isInitializing s then (Settled (Inr ()), s)
      else
        (AwaitModel,
         s\<lparr>isInitializing := True, initializationError := None,
            chatModel := Some (''http://'' @ ollamaAddress w),
            trace := trace s @ [ModelInvoked (JStr ''Hello'')]\<rparr>))"

text \<open>
  A suspended call is resumed with what it awaited and runs to its next \<open>await\<close> or
  to its end. It reads and writes the module variables as they are at that moment.
\<close>

fun resume :: "world \<Rightarrow> suspended \<times> server \<Rightarrow> suspended \<times> server" where
  "resume w (AwaitModel, s) =
     (case invokeModel w (JStr ''Hello'') of
        Inl e \<Rightarrow>
          failed (Error (''Cannot connect to Ollama at '' @ ollamaAddress w @
                         ''. Make sure Ollama is running.'')) s
      | Inr hello \<Rightarrow>
          (case iterate (get (config w) ''DOCUMENT_URLS'' defaultUrls) of
             Inl e \<Rightarrow> failed e s
           | Inr urls \<Rightarrow> nextPage urls [] s))"
| "resume w (AwaitPage url urls docs, s) =
     (case loadPage w url of
        Inr loadedDocs \<Rightarrow> nextPage urls (docs @ loadedDocs) s
      | Inl (Error msg) \<Rightarrow> nextPage urls docs (s\<lparr>trace := trace s @ [PageFailed url msg]\<rparr>))"
| "resume w (AwaitSplit docs, s) =
     (case splitDocuments w (get (config w) ''CHUNK_SIZE'' (JNum 1000))
             (get (config w) ''CHUNK_OVERLAP'' (JNum 200)) docs of
        Inl e \<Rightarrow> failed e s
      | Inr docSplits \<Rightarrow>
          (case inlineCleanAll (rt w) 0 docSplits of
             Inl e \<Rightarrow> failed e s
           | Inr cleanedDocSplits \<Rightarrow>
               (AwaitStore cleanedDocSplits,
                s\<lparr>trace := trace s @ [StoreRequested cleanedDocSplits]\<rparr>)))"
| "resume w (AwaitStore cleanedDocSplits, s) =
     (case fromDocuments w cleanedDocSplits of
        Inl e \<Rightarrow>
          failed (Error (''Cannot connect to Neo4j at '' @
                         toStr (rt w) (get (config w) ''NEO4J_URI'' JUndefined) @
                         ''. Make sure Neo4j is running with correct credentials.'')) s
      | Inr store \<Rightarrow>
          succeeded (s\<lparr>vectorstore := Some store,
                        retriever := Some (get (config w) ''RETRIEVER_K'' (JNum 4))\<rparr>))"
| "resume w (Settled r, s) = (Settled r, s)"

text \<open>
  The event loop: at each turn a new call of \<open>initializeRAG\<close> arrives, or one of the
  calls made so far is resumed. The state is the calls made so far, in the order
  they were made, and the module variables.
\<close>

datatype turn = Call | Resume nat

fun turnStep :: "world \<Rightarrow> turn \<Rightarrow> suspended list \<times> server \<Rightarrow> suspended list \<times> server" where
  "turnStep w Call (calls, s) =
     (calls @ [fst (startInitialize w s)], snd (startInitialize w s))"
| "turnStep w (Resume i) (calls, s) =
     (if i < length calls
      then (calls[i := fst (resume w (calls ! i, s))], snd (resume w (calls ! i, s)))
      else (calls, s))"

definition turns :: "world \<Rightarrow> turn list \<Rightarrow> suspended list \<times> server \<Rightarrow> suspended list \<times> server" where
  "turns w ts c = fold (turnStep w) ts c"

text \<open>
  A call that nothing interleaves with: resumed until it settles. The number of
  resumptions it can need is known when it is suspended.
\<close>

fun resumeTimes :: "world \<Rightarrow> nat \<Rightarrow> suspended \<times> server \<Rightarrow> suspended \<times> server" where
  "resumeTimes w 0 c = c"
| "resumeTimes w (Suc n) c = resumeTimes w n (resume w c)"

fun awaitsLeft :: "world \<Rightarrow> suspended \<Rightarrow> nat" where
  "awaitsLeft w AwaitModel =
     3 + length (case iterate (get (config w) ''DOCUMENT_URLS'' defaultUrls) of
                   Inr urls \<Rightarrow> urls
                 | Inl e \<Rightarrow> [])"
| "awaitsLeft w (AwaitPage url urls docs) = 3 + length urls"
| "awaitsLeft w (AwaitSplit docs) = 2"
| "awaitsLeft w (AwaitStore cleanedDocSplits) = 1"
| "awaitsLeft w (Settled r) = 0"

definition runAlone :: "world \<Rightarrow> server \<Rightarrow> suspended \<times> server" where
  "runAlone w s =
     resumeTimes w (awaitsLeft w (fst (startInitialize w s))) (startInitialize w s)"

fun inProgress :: "suspended \<Rightarrow> bool" where
  "inProgress (Settled r) = False"
| "inProgress c = True"

section \<open>The sources of a setting, as the specification names them\<close>

text \<open>
  What one parsed \<open>config.json\<close> of an ancestor directory says about a key: the entry
  of its module section when there is one, else its top-level entry.
\<close>

definition fileDefines :: "jsval \<Rightarrow> string \<Rightarrow> jsval option" where
  "fileDefines parentConfig k =
     (case getProp (ownEntries (getMember parentConfig moduleName)) k of
        Some v \<Rightarrow> Some v
      | None \<Rightarrow> getProp (ownEntries parentConfig) k)"

fun definesIn :: "cfgfile \<Rightarrow> string \<Rightarrow> jsval option" where
  "definesIn Missing k = None"
| "definesIn Unparsable k = None"
| "definesIn (Parsed parentConfig) k = fileDefines parentConfig k"

text \<open>The value of a key in the farthest of the listed directories that defines it.\<close>

fun farthestDefinition :: "cfgfile list \<Rightarrow> string \<Rightarrow> jsval option" where
  "farthestDefinition [] k = None"
| "farthestDefinition (f # fs) k =
     (case farthestDefinition fs k of
        Some v \<Rightarrow> Some v
      | None \<Rightarrow> definesIn f k)"

text \<open>The parent-directory source: the directories the walk reaches.\<close>

definition parentSource :: "cfgfile list \<Rightarrow> string \<Rightarrow> jsval option" where
  "parentSource dirs k = farthestDefinition (take maxLevels dirs) k"

text \<open>The local source: the first candidate that parses.\<close>

fun firstParsed :: "cfgfile list \<Rightarrow> jsval option" where
  "firstParsed [] = None"
| "firstParsed (Parsed v # fs) = Some v"
| "firstParsed (f # fs) = firstParsed fs"

definition localSource :: "cfgfile list \<Rightarrow> string \<Rightarrow> jsval option" where
  "localSource candidates k =
     (case firstParsed candidates of
        None \<Rightarrow> None
      | Some localConfig \<Rightarrow> getProp (ownEntries localConfig) k)"

text \<open>
  The environment source, read as the claim words it: a variable of the translation
  table that is set in the environment, whatever its value.
\<close>

definition envSourceAnyValue :: "string props \<Rightarrow> string \<Rightarrow> jsval option" where
  "envSourceAnyValue env k =
     (case getProp envMapping k of
        None \<Rightarrow> None
      | Some envKey \<Rightarrow> map_option JStr (getProp env envKey))"

text \<open>The environment source with the restriction the code applies: set and not empty.\<close>

definition envSource :: "string props \<Rightarrow> string \<Rightarrow> jsval option" where
  "envSource env k =
     (case getProp envMapping k of
        None \<Rightarrow> None
      | Some envKey \<Rightarrow>
          (case getProp env envKey of
             None \<Rightarrow> None
           | Some v \<Rightarrow> if v = [] then None else Some (JStr v)))"

text \<open>The value of the highest source that defines the key, in the order of precedence.\<close>

definition byPrecedence ::
  "(string \<Rightarrow> jsval option) list \<Rightarrow> string \<Rightarrow> jsval option" where
  "byPrecedence sources k = foldr (\<lambda>src lower. case src k of Some v \<Rightarrow> Some v | None \<Rightarrow> lower) sources None"

section \<open>Tagged blocks, as the specification names them\<close>

text \<open>\<open>t\<close> is the tag written in some mixture of upper and lower case.\<close>

definition tagEq :: "string \<Rightarrow> string \<Rightarrow> bool" where
  "tagEq t tag \<longleftrightarrow> map toUpperChar t = map toUpperChar tag"

definition containsBlock :: "string \<Rightarrow> bool" where
  "containsBlock s \<longleftrightarrow>
     (\<exists>a opn b cls d. s = a @ opn @ b @ cls @ d \<and> tagEq opn openTag \<and> tagEq cls closeTag)"

text \<open>
  The block \<open>opn inner cls\<close> after \<open>pre\<close> is the first one: no opening tag starts
  before \<open>opn\<close>, and no closing tag starts after \<open>opn\<close> and before \<open>cls\<close>.
\<close>

definition firstBlock :: "string \<Rightarrow> string \<Rightarrow> string \<Rightarrow> string \<Rightarrow> bool" where
  "firstBlock pre opn inner cls \<longleftrightarrow>
     tagEq opn openTag \<and> tagEq cls closeTag \<and>
     \<not> (\<exists>t. sublist t (pre @ butlast opn) \<and> tagEq t openTag) \<and>
     \<not> (\<exists>t. sublist t (inner @ butlast cls) \<and> tagEq t closeTag)"

section \<open>Stored metadata and required settings, as the specification names them\<close>






text \<open>A setting that is absent, or present with one of the falsy values.\<close>

definition absentOrFalsy :: "jsval props \<Rightarrow> string \<Rightarrow> bool" where
  "absentOrFalsy cfg k \<longleftrightarrow>
     (case getProp cfg k of
        None \<Rightarrow> True
      | Some v \<Rightarrow> v \<in> {JUndefined, JNull, JBool False, JNum 0, JStr []})"

section \<open>Ingestion, as the specification names it\<close>

text \<open>The documents of the URLs that load, in the order of the URLs.\<close>

definition successfulDocs :: "world \<Rightarrow> jsval list \<Rightarrow> document list" where
  "successfulDocs w urls =
     concat (map (\<lambda>url. case loadPage w url of Inr ds \<Rightarrow> ds | Inl e \<Rightarrow> []) urls)"

text \<open>The URLs that fail, each with the message of its error.\<close>

definition failedUrls :: "world \<Rightarrow> jsval list \<Rightarrow> (jsval \<times> string) list" where
  "failedUrls w urls =
     concat (map (\<lambda>url. case loadPage w url of Inr ds \<Rightarrow> [] | Inl (Error msg) \<Rightarrow> [(url, msg)]) urls)"

text \<open>What a trace records: the pages requested and the failures reported.\<close>

fun requested :: "event list \<Rightarrow> jsval list" where
  "requested [] = []"
| "requested (PageRequested url # tr) = url # requested tr"
| "requested (e # tr) = requested tr"

fun reported :: "event list \<Rightarrow> (jsval \<times> string) list" where
  "reported [] = []"
| "reported (PageFailed url msg # tr) = (url, msg) # reported tr"
| "reported (e # tr) = reported tr"

definition noDocumentsMessage :: string where
  "noDocumentsMessage = ''No documents were successfully loaded from URLs''"

section \<open>The guard, as the specification names it\<close>

text \<open>
  The flag says whether a call is in progress, and no two calls are in progress at
  once.
\<close>

definition oneAtATime :: "suspended list \<times> server \<Rightarrow> bool" where
  "oneAtATime c \<longleftrightarrow>
     length (filter inProgress (fst c)) = (if isInitializing (snd c) then 1 else 0)"

section \<open>Concrete inputs\<close>

text \<open>No configuration file anywhere, and \<open>OLLAMA_HOST\<close> set to the empty string.\<close>

definition noFiles :: filesystem where
  "noFiles = \<lparr>ancestors = [Missing, Missing], localCandidates = [Missing, Missing, Missing]\<rparr>"

definition emptyHostEnv :: "string props" where
  "emptyHostEnv = [(''OLLAMA_HOST'', '''')]"

text \<open>
  A \<open>config.json\<close> in the parent directory (also the third local candidate), a
  \<open>configs/config.json\<close>, and two environment variables.
\<close>

definition layeredFiles :: filesystem where
  "layeredFiles =
     \<lparr>ancestors =
        [Parsed (JObj [(''LOG_LEVEL'', JStr ''debug''), (''NEO4J_URI'', JStr ''bolt://db:7687'')])],
      localCandidates =
        [Missing,
         Parsed (JObj [(''LOG_LEVEL'', JStr ''warn''), (''CORS_ORIGIN'', JStr ''*'')]),
         Parsed (JObj [(''LOG_LEVEL'', JStr ''debug''), (''NEO4J_URI'', JStr ''bolt://db:7687'')])]\<rparr>"

definition layeredEnv :: "string props" where
  "layeredEnv = [(''PORT'', ''8080''), (''LOG_LEVEL'', ''error'')]"

text \<open>A \<open>configs/static_settings.JSON\<close> that sets the host to the empty string.\<close>

definition emptyHostFile :: filesystem where
  "emptyHostFile =
     \<lparr>ancestors = [],
      localCandidates = [Parsed (JObj [(''OLLAMA_HOST'', JStr '''')]), Missing, Missing]\<rparr>"

text \<open>
  The \<open>config.json\<close> files of two ancestor directories, and of six with nothing in
  the third, fourth and fifth.
\<close>

definition twoLevels :: "cfgfile list" where
  "twoLevels =
     [Parsed (JObj [(''LOG_LEVEL'', JStr ''debug'')]),
      Parsed (JObj [(''LOG_LEVEL'', JStr ''trace'')])]"

definition sixLevels :: "cfgfile list" where
  "sixLevels =
     [Parsed (JObj [(''LOG_LEVEL'', JStr ''near'')]),
      Parsed (JObj [(''LOG_LEVEL'', JStr ''middle'')]),
      Missing, Missing, Missing,
      Parsed (JObj [(''LOG_LEVEL'', JStr ''far'')])]"

text \<open>A runtime, a world in which only the first default URL loads, and one in which none does.\<close>

definition sampleRuntime :: runtime where
  "sampleRuntime =
     \<lparr>stringify = (\<lambda>v. Some ''{}''),
      toStr = (\<lambda>v. case v of JStr s \<Rightarrow> s | _ \<Rightarrow> ''[object Object]''),
      dateNow = (\<lambda>i. 1700 + i),
      toISOString = (\<lambda>i. ''2023-11-14T22:13:20.000Z''),
      randomSuffix = (\<lambda>i. ''k3j9x2m1q'')\<rparr>"

definition sampleWorld :: world where
  "sampleWorld =
     \<lparr>config = getDefaults,
      rt = sampleRuntime,
      invokeModel = (\<lambda>prompt. Inr ''Hi''),
      loadPage = (\<lambda>url.
        if url = JStr ''https://ollama.com''
        then Inr [\<lparr>pageContent = ''Ollama'', metadata = JObj [(''source'', url)]\<rparr>]
        else Inl (Error ''fetch failed'')),
      splitDocuments = (\<lambda>chunkSize chunkOverlap docs. Inr docs),
      fromDocuments = (\<lambda>docs. Inr docs),
      invokeChain = (\<lambda>template input. Inr ''<think>A</think>B'')\<rparr>"

definition offlineWorld :: world where
  "offlineWorld = sampleWorld\<lparr>loadPage := (\<lambda>url. Inl (Error ''fetch failed''))\<rparr>"

definition idle :: server where
  "idle =
     \<lparr>vectorstore = None, retriever = None, chatModel = None, isInitializing = False,
      initializationError = None, trace = []\<rparr>"



text \<open>A response with two tagged blocks.\<close>

definition twoBlocks :: string where
  "twoBlocks = ''<think>a</think><think>b</think>c''"



text \<open>
  Calls and resumptions: three calls, the second and third made while the first is
  suspended; then the first resumed until it settles.
\<close>

definition busyTurns :: "turn list" where
  "busyTurns = [Call, Call, Resume 0, Call, Resume 1, Resume 0]"

definition allTurns :: "turn list" where
  "allTurns = busyTurns @ [Resume 0, Resume 2, Resume 0, Resume 0, Resume 0]"

section \<open>Properties of objects\<close>

lemma getProp_None_iff: "getProp ps k = None \<longleftrightarrow> k \<notin> fst ` set ps"
  by (induction ps) (auto split: option.splits)

lemma getProp_append:
  "getProp (ps @ qs) k = (case getProp qs k of Some v \<Rightarrow> Some v | None \<Rightarrow> getProp ps k)"
  by (induction ps) (auto split: option.splits)

lemma keys_overwrite:
  "fst ` set (map (\<lambda>(k', w). if k' = k then (k', v) else (k', w)) ps) = fst ` set ps"
  by (induction ps) auto

lemma getProp_overwrite_other:
  "k'' \<noteq> k \<Longrightarrow>
   getProp (map (\<lambda>(k', w). if k' = k then (k', v) else (k', w)) ps) k'' = getProp ps k''"
  by (induction ps) (auto split: option.splits)

lemma getProp_overwrite_same:
  "k \<in> fst ` set ps \<Longrightarrow>
   getProp (map (\<lambda>(k', w). if k' = k then (k', v) else (k', w)) ps) k = Some v"
proof (induction ps)
  case Nil
  then show ?case by simp
next
  case (Cons p ps)
  obtain a b where p: "p = (a, b)" by (cases p)
  show ?case
  proof (cases "k \<in> fst ` set ps")
    case True
    then show ?thesis using Cons.IH by (simp add: p)
  next
    case False
    then have "getProp (map (\<lambda>(k', w). if k' = k then (k', v) else (k', w)) ps) k = None"
      by (simp add: getProp_None_iff keys_overwrite del: set_map)
    moreover from False Cons.prems have "a = k" by (simp add: p)
    ultimately show ?thesis by (simp add: p)
  qed
qed

lemma getProp_setProp:
  "getProp (setProp k v ps) k' = (if k' = k then Some v else getProp ps k')"
proof (cases "k \<in> fst ` set ps")
  case True
  then show ?thesis
    by (simp add: setProp_def getProp_overwrite_same getProp_overwrite_other)
next
  case False
  then have "getProp ps k = None" by (simp add: getProp_None_iff)
  with False show ?thesis
    by (simp add: setProp_def getProp_append)
qed




lemma getProp_fold_setProp:
  "getProp (fold (\<lambda>(k, x). setProp k x) es cfg) k =
     (case getProp es k of Some v \<Rightarrow> Some v | None \<Rightarrow> getProp cfg k)"
proof (induction es arbitrary: cfg)
  case Nil
  show ?case by simp
next
  case (Cons e es)
  obtain k' x where e: "e = (k', x)" by (cases e)
  show ?case
    by (simp add: e Cons.IH getProp_setProp split: option.splits)
qed

lemma getProp_spread:
  "getProp (spread cfg v) k =
     (case getProp (ownEntries v) k of Some x \<Rightarrow> Some x | None \<Rightarrow> getProp cfg k)"
  by (simp add: spread_def getProp_fold_setProp)

lemma falsy_no_entries: "\<not> truthy v \<Longrightarrow> ownEntries v = []"
  by (cases v) (auto simp: indexed_def)

section \<open>The configuration loader\<close>

lemma getProp_mergeParent:
  "getProp (mergeParent cfg f) k =
     (case definesIn f k of Some v \<Rightarrow> Some v | None \<Rightarrow> getProp cfg k)"
proof (cases f)
  case (Parsed pc)
  show ?thesis
  proof (cases "pc = JNull \<or> pc = JUndefined")
    case True
    then show ?thesis
      by (auto simp: Parsed fileDefines_def getMember_def getProp_spread)
  next
    case False
    show ?thesis
    proof (cases "truthy (getMember pc moduleName)")
      case True
      with False show ?thesis
        by (simp add: Parsed fileDefines_def getProp_spread Let_def split: option.splits)
    next
      case nt: False
      then have "ownEntries (getMember pc moduleName) = []"
        by (rule falsy_no_entries)
      with False nt show ?thesis
        by (simp add: Parsed fileDefines_def getProp_spread Let_def split: option.splits)
    qed
  qed
qed simp_all

lemma getProp_walkParents:
  "getProp (walkParents level dirs cfg) k =
     (case farthestDefinition (take (maxLevels - level) dirs) k of
        Some v \<Rightarrow> Some v
      | None \<Rightarrow> getProp cfg k)"
proof (induction level dirs cfg rule: walkParents.induct)
  case (1 level dirs cfg)
  show ?case
  proof (cases "level < maxLevels")
    case False
    then show ?thesis by (simp add: walkParents.simps)
  next
    case lt: True
    show ?thesis
    proof (cases dirs)
      case Nil
      with lt show ?thesis by (simp add: walkParents.simps)
    next
      case (Cons f rest)
      from lt have m: "maxLevels - level = Suc (maxLevels - Suc level)" by simp
      have "getProp (walkParents level dirs cfg) k =
              getProp (walkParents (Suc level) rest (mergeParent cfg f)) k"
        using lt Cons by (simp add: walkParents.simps)
      also have "\<dots> = (case farthestDefinition (take (maxLevels - Suc level) rest) k of
                          Some v \<Rightarrow> Some v
                        | None \<Rightarrow> getProp (mergeParent cfg f) k)"
        using "1.IH" [OF lt Cons] .
      finally show ?thesis
        by (simp add: Cons m getProp_mergeParent split: option.splits)
    qed
  qed
qed

lemma getProp_loadParentConfigs:
  "getProp (loadParentConfigs dirs cfg) k =
     (case parentSource dirs k of Some v \<Rightarrow> Some v | None \<Rightarrow> getProp cfg k)"
  by (simp add: loadParentConfigs_def parentSource_def getProp_walkParents)

lemma getProp_loadLocalConfig:
  "getProp (loadLocalConfig candidates cfg) k =
     (case localSource candidates k of Some v \<Rightarrow> Some v | None \<Rightarrow> getProp cfg k)"
  by (induction candidates cfg rule: loadLocalConfig.induct)
     (simp_all add: localSource_def getProp_spread)


lemma getProp_envFold:
  "distinct (map fst m) \<Longrightarrow>
   getProp (fold (envStep env) m cfg) k =
     (case (case getProp m k of
              None \<Rightarrow> None
            | Some envKey \<Rightarrow>
                (case getProp env envKey of
                   None \<Rightarrow> None
                 | Some v \<Rightarrow> if v = [] then None else Some (JStr v))) of
        Some x \<Rightarrow> Some x
      | None \<Rightarrow> getProp cfg k)"
proof (induction m arbitrary: cfg)
  case Nil
  show ?case by simp
next
  case (Cons e m)
  obtain ck ek where e: "e = (ck, ek)" by (cases e)
  from Cons.prems have d: "distinct (map fst m)" and nk: "ck \<notin> fst ` set m"
    by (simp_all add: e)
  from nk have none: "getProp m ck = None" by (simp add: getProp_None_iff)
  show ?case
    using Cons.IH [OF d] none
    by (auto simp: e envStep_def getProp_setProp split: option.splits)
qed

lemma getProp_loadEnvironmentConfig:
  "getProp (loadEnvironmentConfig env cfg) k =
     (case envSource env k of Some v \<Rightarrow> Some v | None \<Rightarrow> getProp cfg k)"
proof -
  have "distinct (map fst envMapping)" by (simp add: envMapping_def)
  then show ?thesis
    unfolding loadEnvironmentConfig_def envSource_def by (rule getProp_envFold)
qed

text \<open>
  Claim C1, as the code has it. The value \<open>loadConfig\<close> resolves for a key is the
  value of the highest source that defines it, in the order environment, local
  file, parent directories, defaults, where the environment counts only the
  variables of the translation table that are set to a non-empty string, the local
  file is the first candidate that parses, and the parent directories are those the
  walk reaches.
\<close>
theorem loadConfig_precedence:
  "getProp (loadConfig fs env) k =
     byPrecedence
       [envSource env, localSource (localCandidates fs), parentSource (ancestors fs),
        getProp getDefaults] k"
  by (simp add: loadConfig_def byPrecedence_def getProp_loadEnvironmentConfig
        getProp_loadLocalConfig getProp_loadParentConfigs split: option.splits)

lemma farthestDefinition_index:
  "j < length fs \<Longrightarrow> definesIn (fs ! j) k = Some v \<Longrightarrow>
   (\<forall>l. j < l \<and> l < length fs \<longrightarrow> definesIn (fs ! l) k = None) \<Longrightarrow>
   farthestDefinition fs k = Some v"
proof (induction fs arbitrary: j)
  case Nil
  then show ?case by simp
next
  case (Cons f fs)
  show ?case
  proof (cases j)
    case 0
    have "farthestDefinition fs k = None"
    proof (rule ccontr)
      assume "farthestDefinition fs k \<noteq> None"
      then obtain l where "l < length fs" "definesIn (fs ! l) k \<noteq> None"
      proof (induction fs arbitrary: thesis)
        case Nil
        then show ?case by simp
      next
        case (Cons g gs)
        show ?case
        proof (cases "farthestDefinition gs k")
          case None
          with Cons.prems(2) have "definesIn g k \<noteq> None" by simp
          then show ?thesis using Cons.prems(1) [of 0] by simp
        next
          case (Some x)
          then obtain l where "l < length gs" "definesIn (gs ! l) k \<noteq> None"
            using Cons.IH by blast
          then show ?thesis using Cons.prems(1) [of "Suc l"] by simp
        qed
      qed
      with Cons.prems(3) [rule_format, of "Suc l"] 0 show False by simp
    qed
    with Cons.prems(2) 0 show ?thesis by simp
  next
    case (Suc i)
    have "farthestDefinition fs k = Some v"
    proof (rule Cons.IH)
      show "i < length fs" using Cons.prems(1) Suc by simp
      show "definesIn (fs ! i) k = Some v" using Cons.prems(2) Suc by simp
      show "\<forall>l. i < l \<and> l < length fs \<longrightarrow> definesIn (fs ! l) k = None"
      proof (intro allI impI)
        fix l assume "i < l \<and> l < length fs"
        then have "j < Suc l \<and> Suc l < length (f # fs)" using Suc by simp
        from Cons.prems(3) [rule_format, OF this] show "definesIn (fs ! l) k = None" by simp
      qed
    qed
    then show ?thesis by simp
  qed
qed

text \<open>
  Claim C9, as the code has it. Among the ancestor directories the walk reaches
  (at most \<open>maxLevels\<close> of them), the value \<open>loadParentConfigs\<close> resolves for a key
  is the one of the farthest directory whose \<open>config.json\<close> defines it: nearer
  files, merged earlier, are overwritten.
\<close>
theorem farthest_walked_parent_wins:
  assumes "j < length dirs" and "j < maxLevels"
    and "definesIn (dirs ! j) k = Some v"
    and "\<forall>l. j < l \<and> l < length dirs \<and> l < maxLevels \<longrightarrow> definesIn (dirs ! l) k = None"
  shows "getProp (loadParentConfigs dirs cfg) k = Some v"
proof -
  let ?fs = "take maxLevels dirs"
  have "farthestDefinition ?fs k = Some v"
  proof (rule farthestDefinition_index [where j = j])
    show "j < length ?fs" using assms(1,2) by simp
    show "definesIn (?fs ! j) k = Some v" using assms(2,3) by simp
    show "\<forall>l. j < l \<and> l < length ?fs \<longrightarrow> definesIn (?fs ! l) k = None"
      using assms(4) by simp
  qed
  then show ?thesis
    by (simp add: getProp_loadParentConfigs parentSource_def)
qed

lemma truthy_iff: "truthy v \<longleftrightarrow> v \<notin> {JUndefined, JNull, JBool False, JNum 0, JStr []}"
  by (cases v) auto

lemma falsy_propValue: "\<not> truthy (propValue cfg k) \<longleftrightarrow> absentOrFalsy cfg k"
  by (simp add: propValue_def absentOrFalsy_def truthy_iff split: option.splits)

lemma sublist_prepend: "sublist k t \<Longrightarrow> sublist k (p @ t)"
  unfolding sublist_def by (metis append.assoc)

lemma sublist_join: "k \<in> set ks \<Longrightarrow> sublist k (join sep ks)"
proof (induction sep ks rule: join.induct)
  case (1 sep)
  then show ?case by simp
next
  case (2 sep x)
  then show ?case by simp
next
  case (3 sep x y ys)
  show ?case
  proof (cases "k = x")
    case True
    then show ?thesis by simp
  next
    case False
    with 3 have "sublist k (join sep (y # ys))" by simp
    then have "sublist k ((x @ sep) @ join sep (y # ys))" by (rule sublist_prepend)
    then show ?thesis by simp
  qed
qed

text \<open>
  Claim C4, as the code has it. \<open>validate\<close> returns \<open>true\<close> exactly when each of the
  three required keys is present with a truthy value; when a required key is absent
  or holds the empty string, zero, \<open>false\<close> or \<open>null\<close>, it throws an error whose
  message names every such key.
\<close>
theorem validate_missing_or_falsy:
  "(validate cfg = Inr True \<longleftrightarrow> (\<forall>k \<in> set required. \<not> absentOrFalsy cfg k)) \<and>
   ((\<exists>k \<in> set required. absentOrFalsy cfg k) \<longrightarrow>
      (\<exists>msg. validate cfg = Inl (Error msg) \<and>
         (\<forall>k \<in> set required. absentOrFalsy cfg k \<longrightarrow> sublist k msg)))"
proof -
  let ?missing = "filter (\<lambda>key. \<not> truthy (propValue cfg key)) required"
  have set_missing: "set ?missing = {k \<in> set required. absentOrFalsy cfg k}"
    by (auto simp: falsy_propValue)
  have ok: "validate cfg = Inr True \<longleftrightarrow> ?missing = []"
    by (simp add: validate_def Let_def)
  have empty: "?missing = [] \<longleftrightarrow> (\<forall>k \<in> set required. \<not> absentOrFalsy cfg k)"
    using set_missing by (metis (mono_tags, lifting) empty_Collect_eq set_empty)
  have fails: "\<exists>msg. validate cfg = Inl (Error msg) \<and>
                 (\<forall>k \<in> set required. absentOrFalsy cfg k \<longrightarrow> sublist k msg)"
    if "\<exists>k \<in> set required. absentOrFalsy cfg k"
  proof -
    from that empty have ne: "?missing \<noteq> []" by blast
    let ?msg = "''Missing required configuration: '' @ join '', '' ?missing"
    have "validate cfg = Inl (Error ?msg)"
      using ne by (simp add: validate_def Let_def)
    moreover have "sublist k ?msg" if "k \<in> set required" "absentOrFalsy cfg k" for k
    proof -
      from that set_missing have "k \<in> set ?missing" by blast
      then have "sublist k (join '', '' ?missing)" by (rule sublist_join)
      then show ?thesis by (rule sublist_prepend)
    qed
    ultimately show ?thesis by blast
  qed
  from ok empty fails show ?thesis by blast
qed







theorem loadConfig_precedence_witness:
  "getProp (loadConfig layeredFiles layeredEnv) ''LOG_LEVEL'' = Some (JStr ''error'') \<and>
   getProp (loadConfig layeredFiles layeredEnv) ''SERVER_PORT'' = Some (JStr ''8080'') \<and>
   getProp (loadConfig layeredFiles layeredEnv) ''CORS_ORIGIN'' = Some (JStr ''*'') \<and>
   getProp (loadConfig layeredFiles layeredEnv) ''NEO4J_URI'' = Some (JStr ''bolt://db:7687'') \<and>
   getProp (loadConfig layeredFiles layeredEnv) ''OLLAMA_PORT'' = Some (JStr ''11434'')"
proof -
  have "byPrecedence
          [envSource layeredEnv, localSource (localCandidates layeredFiles),
           parentSource (ancestors layeredFiles), getProp getDefaults] ''LOG_LEVEL'' =
        Some (JStr ''error'')"
    by code_simp
  moreover have "byPrecedence
          [envSource layeredEnv, localSource (localCandidates layeredFiles),
           parentSource (ancestors layeredFiles), getProp getDefaults] ''SERVER_PORT'' =
        Some (JStr ''8080'')"
    by code_simp
  moreover have "byPrecedence
          [envSource layeredEnv, localSource (localCandidates layeredFiles),
           parentSource (ancestors layeredFiles), getProp getDefaults] ''CORS_ORIGIN'' =
        Some (JStr ''*'')"
    by code_simp
  moreover have "byPrecedence
          [envSource layeredEnv, localSource (localCandidates layeredFiles),
           parentSource (ancestors layeredFiles), getProp getDefaults] ''NEO4J_URI'' =
        Some (JStr ''bolt://db:7687'')"
    by code_simp
  moreover have "byPrecedence
          [envSource layeredEnv, localSource (localCandidates layeredFiles),
           parentSource (ancestors layeredFiles), getProp getDefaults] ''OLLAMA_PORT'' =
        Some (JStr ''11434'')"
    by code_simp
  ultimately show ?thesis
    by (simp only: loadConfig_precedence)
qed

text \<open>
  Claim C1 as worded lets every variable that is set take part. With
  \<open>OLLAMA_HOST\<close> set to the empty string the environment defines the key, the
  defaults define it too, and the loader returns the default.
\<close>
theorem empty_env_value_counterexample:
  "envSourceAnyValue emptyHostEnv ''OLLAMA_HOST'' = Some (JStr '''') \<and>
   getProp getDefaults ''OLLAMA_HOST'' = Some (JStr ''localhost'') \<and>
   getProp (loadConfig noFiles emptyHostEnv) ''OLLAMA_HOST'' = Some (JStr ''localhost'')"
  by code_simp

text \<open>
  Claim C4 as worded makes absence the only reason to fail. A local file that sets
  \<open>OLLAMA_HOST\<close> to the empty string leaves all three keys present, and \<open>validate\<close>
  throws.
\<close>
theorem validate_present_falsy_counterexample:
  "getProp (loadConfig emptyHostFile []) ''OLLAMA_HOST'' = Some (JStr '''') \<and>
   getProp (loadConfig emptyHostFile []) ''OLLAMA_PORT'' = Some (JStr ''11434'') \<and>
   getProp (loadConfig emptyHostFile []) ''DEFAULT_MODEL'' = Some (JStr ''llama3.2'') \<and>
   validate (loadConfig emptyHostFile []) =
     Inl (Error ''Missing required configuration: OLLAMA_HOST'')"
  by code_simp

text \<open>
  Claim C9 as worded speaks of the farthest ancestor directory. With six ancestor
  directories the sixth is never read: the key keeps the value of the second.
\<close>
theorem bounded_walk_counterexample:
  "length sixLevels = 6 \<and>
   definesIn (sixLevels ! 5) ''LOG_LEVEL'' = Some (JStr ''far'') \<and>
   getProp (loadParentConfigs sixLevels getDefaults) ''LOG_LEVEL'' = Some (JStr ''middle'')"
  by code_simp

theorem farthest_walked_parent_wins_witness:
  "1 < length twoLevels \<and> 1 < maxLevels \<and>
   definesIn (twoLevels ! 0) ''LOG_LEVEL'' = Some (JStr ''debug'') \<and>
   definesIn (twoLevels ! 1) ''LOG_LEVEL'' = Some (JStr ''trace'') \<and>
   getProp (loadParentConfigs twoLevels getDefaults) ''LOG_LEVEL'' = Some (JStr ''trace'')"
proof -
  have len: "1 < length twoLevels" by (simp add: twoLevels_def)
  have lev: "1 < maxLevels" by (simp add: maxLevels_def)
  have near: "definesIn (twoLevels ! 0) ''LOG_LEVEL'' = Some (JStr ''debug'')" by code_simp
  have far: "definesIn (twoLevels ! 1) ''LOG_LEVEL'' = Some (JStr ''trace'')" by code_simp
  have beyond: "\<forall>l. 1 < l \<and> l < length twoLevels \<and> l < maxLevels \<longrightarrow>
                  definesIn (twoLevels ! l) ''LOG_LEVEL'' = None"
  proof (intro allI impI)
    fix l
    assume "1 < l \<and> l < length twoLevels \<and> l < maxLevels"
    then have "1 < l" and "l < 2" by (simp_all add: twoLevels_def)
    then have False by arith
    then show "definesIn (twoLevels ! l) ''LOG_LEVEL'' = None" ..
  qed
  from farthest_walked_parent_wins [OF len lev far beyond, of getDefaults] len lev near far
  show ?thesis by simp
qed

theorem validate_missing_or_falsy_witness:
  "validate getDefaults = Inr True \<and>
   (\<exists>msg. validate [(''OLLAMA_HOST'', JStr ''localhost'')] = Inl (Error msg) \<and>
      sublist ''OLLAMA_PORT'' msg \<and> sublist ''DEFAULT_MODEL'' msg)"
proof -
  have ok: "\<forall>k \<in> set required. \<not> absentOrFalsy getDefaults k" by code_simp
  have bad: "\<exists>k \<in> set required. absentOrFalsy [(''OLLAMA_HOST'', JStr ''localhost'')] k"
    by code_simp
  have port: "''OLLAMA_PORT'' \<in> set required \<and>
              absentOrFalsy [(''OLLAMA_HOST'', JStr ''localhost'')] ''OLLAMA_PORT''"
    by code_simp
  have model: "''DEFAULT_MODEL'' \<in> set required \<and>
               absentOrFalsy [(''OLLAMA_HOST'', JStr ''localhost'')] ''DEFAULT_MODEL''"
    by code_simp
  from validate_missing_or_falsy [of getDefaults] ok
  have "validate getDefaults = Inr True" by blast
  moreover from validate_missing_or_falsy [of "[(''OLLAMA_HOST'', JStr ''localhost'')]"] bad
  obtain msg where "validate [(''OLLAMA_HOST'', JStr ''localhost'')] = Inl (Error msg)"
    and "\<forall>k \<in> set required.
           absentOrFalsy [(''OLLAMA_HOST'', JStr ''localhost'')] k \<longrightarrow> sublist k msg"
    by blast
  ultimately show ?thesis using port model by blast
qed



section \<open>The response parser\<close>

lemma tagEq_length: "tagEq t tag \<Longrightarrow> length t = length tag"
  unfolding tagEq_def by (rule map_eq_imp_length_eq)

lemma stripPrefixCI_tagEq: "tagEq t tag \<Longrightarrow> stripPrefixCI tag (t @ u) = Some u"
proof (induction tag arbitrary: t)
  case Nil
  then show ?case by (simp add: tagEq_def)
next
  case (Cons p ps)
  then obtain c cs where t: "t = c # cs" by (cases t) (auto simp: tagEq_def)
  with Cons.prems have "toUpperChar p = toUpperChar c" and "tagEq cs ps"
    by (simp_all add: tagEq_def)
  with Cons.IH show ?case by (simp add: t)
qed

lemma stripPrefixCI_SomeD:
  "stripPrefixCI tag s = Some u \<Longrightarrow> \<exists>t. s = t @ u \<and> tagEq t tag"
proof (induction tag s rule: stripPrefixCI.induct)
  case (1 s)
  then show ?case by (simp add: tagEq_def)
next
  case (2 p ps)
  then show ?case by simp
next
  case (3 p ps c cs)
  from "3.prems" have eq: "toUpperChar p = toUpperChar c" and rest: "stripPrefixCI ps cs = Some u"
    by (simp_all split: if_splits)
  from "3.IH" [OF eq rest] obtain t where "cs = t @ u" "tagEq t ps" by blast
  with eq have "c # cs = (c # t) @ u \<and> tagEq (c # t) (p # ps)"
    by (simp add: tagEq_def)
  then show ?case by blast
qed

lemma scan_first:
  "m rest = Some r \<Longrightarrow> \<forall>i < length pre. m (drop i (pre @ rest)) = None \<Longrightarrow>
   scan m (pre @ rest) = Some (pre, r)"
proof (induction pre)
  case Nil
  then show ?case by (cases rest) simp_all
next
  case (Cons c pre)
  from Cons.prems(2) [rule_format, of 0] have here: "m (c # pre @ rest) = None" by simp
  have "\<forall>i < length pre. m (drop i (pre @ rest)) = None"
  proof (intro allI impI)
    fix i assume "i < length pre"
    with Cons.prems(2) [rule_format, of "Suc i"] show "m (drop i (pre @ rest)) = None" by simp
  qed
  with Cons.IH Cons.prems(1) have "scan m (pre @ rest) = Some (pre, r)" by blast
  with here show ?case by simp
qed

lemma scan_SomeD:
  "scan m s = Some (pre, r) \<Longrightarrow>
   \<exists>rest. s = pre @ rest \<and> m rest = Some r \<and> (\<forall>i < length pre. m (drop i s) = None)"
proof (induction s arbitrary: pre)
  case Nil
  then show ?case by auto
next
  case (Cons c cs)
  show ?case
  proof (cases "m (c # cs)")
    case (Some r')
    with Cons.prems show ?thesis by auto
  next
    case None
    with Cons.prems obtain pre' where pre: "pre = c # pre'" and sc: "scan m cs = Some (pre', r)"
      by auto
    from Cons.IH [OF sc] obtain rest where rest: "cs = pre' @ rest" "m rest = Some r"
      and early: "\<forall>i < length pre'. m (drop i cs) = None" by blast
    have "\<forall>i < length pre. m (drop i (c # cs)) = None"
    proof (intro allI impI)
      fix i assume i: "i < length pre"
      show "m (drop i (c # cs)) = None"
      proof (cases i)
        case 0
        with None show ?thesis by simp
      next
        case (Suc j)
        with i pre early show ?thesis by simp
      qed
    qed
    with rest pre show ?thesis by auto
  qed
qed

lemma scan_finds: "i \<le> length s \<Longrightarrow> m (drop i s) = Some r \<Longrightarrow> scan m s \<noteq> None"
proof (induction s arbitrary: i)
  case Nil
  then show ?case by simp
next
  case (Cons c cs)
  show ?case
  proof (cases i)
    case 0
    with Cons.prems show ?thesis by simp
  next
    case (Suc j)
    with Cons.prems have "scan m cs \<noteq> None" using Cons.IH [of j] by simp
    then show ?thesis by (cases "m (c # cs)") auto
  qed
qed

lemma trim_ends: "trim s = [] \<or> (\<not> isWhiteSpace (hd (trim s)) \<and> \<not> isWhiteSpace (last (trim s)))"
proof (cases "trim s = []")
  case True
  then show ?thesis by simp
next
  case False
  let ?a = "dropWhile isWhiteSpace s"
  let ?b = "dropWhile isWhiteSpace (rev ?a)"
  from False have b: "?b \<noteq> []" by (simp add: trim_def)
  then have "rev ?a \<noteq> []" by (metis dropWhile.simps(1))
  then have a: "?a \<noteq> []" by (metis rev.simps(1))
  have "\<not> isWhiteSpace (hd ?b)" using b by (rule hd_dropWhile)
  then have l: "\<not> isWhiteSpace (last (trim s))" using b by (simp add: trim_def last_rev)
  have "suffix ?b (rev ?a)" by (rule suffix_dropWhile)
  then obtain q where "rev ?a = q @ ?b" by (auto simp: suffix_def)
  with b have "last ?b = last (rev ?a)" by (metis last_appendR)
  also have "\<dots> = hd ?a" using a by (simp add: last_rev)
  finally have "hd (trim s) = hd ?a" using b by (simp add: trim_def hd_rev)
  moreover have "\<not> isWhiteSpace (hd ?a)" using a by (rule hd_dropWhile)
  ultimately show ?thesis using l by simp
qed

lemma trim_idem: "trim (trim s) = trim s"
proof (cases "trim s = []")
  case True
  have "trim [] = []" by (simp add: trim_def)
  with True show ?thesis by simp
next
  case False
  with trim_ends [of s] have h: "\<not> isWhiteSpace (hd (trim s))" and l: "\<not> isWhiteSpace (last (trim s))"
    by simp_all
  from False h have 1: "dropWhile isWhiteSpace (trim s) = trim s"
    by (cases "trim s") simp_all
  from False l have 2: "dropWhile isWhiteSpace (rev (trim s)) = rev (trim s)"
    by (cases "rev (trim s)") (simp_all add: hd_rev [symmetric])
  have "trim (trim s) = rev (dropWhile isWhiteSpace (rev (dropWhile isWhiteSpace (trim s))))"
    by (simp add: trim_def)
  also have "\<dots> = trim s" by (simp add: 1 2)
  finally show ?thesis .
qed

lemma early_match_position:
  assumes sub: "sublist t (a @ butlast c)" and len: "length t = length c" and ne: "c \<noteq> []"
  obtains i y where "i < length a" and "drop i (a @ c @ rest) = t @ y @ rest"
proof -
  from sub obtain p1 p2 where split: "a @ butlast c = p1 @ t @ p2"
    by (auto simp: sublist_def)
  then have "length (a @ butlast c) = length (p1 @ t @ p2)" by simp
  then have "length a + (length c - 1) = length p1 + length t + length p2" by simp
  moreover from ne have "0 < length c" by simp
  ultimately have lt: "length p1 < length a" using len by arith
  from ne have "a @ c @ rest = (a @ butlast c) @ [last c] @ rest" by simp
  also have "\<dots> = p1 @ t @ (p2 @ [last c]) @ rest" by (simp add: split)
  finally have whole: "a @ c @ rest = p1 @ (t @ (p2 @ [last c]) @ rest)" by simp
  have "drop (length p1) (a @ c @ rest) = t @ (p2 @ [last c]) @ rest"
    unfolding whole by (rule append_eq_conv_conj [THEN iffD1, THEN conjunct2, OF refl, symmetric])
  with lt show ?thesis by (rule that)
qed

lemma no_early_tag:
  assumes no: "\<not> (\<exists>t. sublist t (a @ butlast c) \<and> tagEq t tag)"
    and len: "length c = length tag" and i: "i < length a"
  shows "stripPrefixCI tag (drop i (a @ c @ rest)) = None"
proof (rule ccontr)
  assume "stripPrefixCI tag (drop i (a @ c @ rest)) \<noteq> None"
  then obtain u where "stripPrefixCI tag (drop i (a @ c @ rest)) = Some u" by blast
  then obtain t where t: "drop i (a @ c @ rest) = t @ u" and eq: "tagEq t tag"
    by (blast dest: stripPrefixCI_SomeD)
  from eq len have lt: "length t = length c" by (simp add: tagEq_length)
  show False
  proof (cases "c = []")
    case True
    with lt have "t = []" by simp
    with eq no show False by auto
  next
    case False
    let ?w = "drop i a @ butlast c"
    from i have d: "drop i (a @ c @ rest) = ?w @ [last c] @ rest"
      using False by simp
    from False have "0 < length c" by simp
    with i lt have "length t \<le> (length a - i) + (length c - 1)" by arith
    then have le: "length t \<le> length ?w" by simp
    from t d have "t @ u = ?w @ [last c] @ rest" by simp
    then have "take (length t) (t @ u) = take (length t) (?w @ [last c] @ rest)" by simp
    with le have tw: "t = take (length t) ?w" by simp
    have "a @ butlast c = take i a @ ?w" by simp
    also have "\<dots> = take i a @ take (length t) ?w @ drop (length t) ?w"
      by (simp only: append_take_drop_id)
    finally have "a @ butlast c = take i a @ t @ drop (length t) ?w" using tw by simp
    then have "sublist t (a @ butlast c)" unfolding sublist_def by blast
    with eq no show False by blast
  qed
qed

lemma first_block_regex:
  assumes fb: "firstBlock pre opn inner cls"
  shows "thinkRegex (pre @ opn @ inner @ cls @ post) = Some (pre, inner, post)"
proof -
  let ?m = "\<lambda>t. case stripPrefixCI openTag t of
                  None \<Rightarrow> None
                | Some u \<Rightarrow> scan (stripPrefixCI closeTag) u"
  from fb have o: "tagEq opn openTag" and c: "tagEq cls closeTag"
    and no_o: "\<not> (\<exists>t. sublist t (pre @ butlast opn) \<and> tagEq t openTag)"
    and no_c: "\<not> (\<exists>t. sublist t (inner @ butlast cls) \<and> tagEq t closeTag)"
    by (simp_all add: firstBlock_def)
  have close_here: "stripPrefixCI closeTag (cls @ post) = Some post"
    using c by (rule stripPrefixCI_tagEq)
  have "\<forall>i < length inner. stripPrefixCI closeTag (drop i (inner @ cls @ post)) = None"
    using no_early_tag [OF no_c tagEq_length [OF c]] by blast
  with close_here have inner: "scan (stripPrefixCI closeTag) (inner @ cls @ post) = Some (inner, post)"
    by (rule scan_first)
  have "stripPrefixCI openTag (opn @ inner @ cls @ post) = Some (inner @ cls @ post)"
    using o by (rule stripPrefixCI_tagEq)
  with inner have here: "?m (opn @ inner @ cls @ post) = Some (inner, post)" by simp
  have "\<forall>i < length pre. ?m (drop i (pre @ opn @ inner @ cls @ post)) = None"
  proof (intro allI impI)
    fix i assume "i < length pre"
    with no_early_tag [OF no_o tagEq_length [OF o]]
    have "stripPrefixCI openTag (drop i (pre @ opn @ inner @ cls @ post)) = None" by blast
    then show "?m (drop i (pre @ opn @ inner @ cls @ post)) = None" by simp
  qed
  with here have "scan ?m (pre @ opn @ inner @ cls @ post) = Some (pre, inner, post)"
    by (rule scan_first)
  then show ?thesis by (simp add: thinkRegex_def)
qed

lemma parse_first_block:
  "firstBlock pre opn inner cls \<Longrightarrow>
   parseThinkingResponse (pre @ opn @ inner @ cls @ post) =
     \<lparr>thinking = Some (trim inner), response = trim (pre @ post), hasThinking = True\<rparr>"
  by (simp add: parseThinkingResponse_def first_block_regex)

lemma contains_block_first:
  assumes "containsBlock s"
  shows "\<exists>pre opn inner cls post.
           s = pre @ opn @ inner @ cls @ post \<and> firstBlock pre opn inner cls"
proof -
  let ?m2 = "stripPrefixCI closeTag"
  let ?m = "\<lambda>t. case stripPrefixCI openTag t of None \<Rightarrow> None | Some u \<Rightarrow> scan ?m2 u"
  have closes: "scan ?m2 (x @ c @ d) \<noteq> None" if "tagEq c closeTag" for x c d
  proof -
    from that have "?m2 (drop (length x) (x @ c @ d)) = Some d"
      by (simp add: stripPrefixCI_tagEq)
    then show ?thesis by (rule scan_finds [rotated]) simp
  qed
  from assms obtain a opn0 b cls0 d where s0: "s = a @ opn0 @ b @ cls0 @ d"
    and o0: "tagEq opn0 openTag" and c0: "tagEq cls0 closeTag"
    by (auto simp: containsBlock_def)
  from closes [OF c0] obtain r0 where "scan ?m2 (b @ cls0 @ d) = Some r0" by blast
  with o0 have "?m (drop (length a) s) = Some r0"
    by (simp add: s0 stripPrefixCI_tagEq)
  then have "scan ?m s \<noteq> None" by (rule scan_finds [rotated]) (simp add: s0)
  then obtain pre inner post where "scan ?m s = Some (pre, inner, post)" by auto
  from scan_SomeD [OF this] obtain rest where s1: "s = pre @ rest"
    and mrest: "?m rest = Some (inner, post)"
    and early: "\<forall>i < length pre. ?m (drop i s) = None" by blast
  from mrest obtain u where su: "stripPrefixCI openTag rest = Some u"
    and sc: "scan ?m2 u = Some (inner, post)" by (auto split: option.splits)
  from stripPrefixCI_SomeD [OF su] obtain opn where rest: "rest = opn @ u"
    and o: "tagEq opn openTag" by blast
  from scan_SomeD [OF sc] obtain rest2 where u: "u = inner @ rest2"
    and m2: "?m2 rest2 = Some post"
    and early2: "\<forall>i < length inner. ?m2 (drop i u) = None" by blast
  from stripPrefixCI_SomeD [OF m2] obtain cls where rest2: "rest2 = cls @ post"
    and c: "tagEq cls closeTag" by blast
  have s: "s = pre @ opn @ inner @ cls @ post" by (simp add: s1 rest u rest2)
  have opn_ne: "opn \<noteq> []" using tagEq_length [OF o] by (auto simp: openTag_def)
  have cls_ne: "cls \<noteq> []" using tagEq_length [OF c] by (auto simp: closeTag_def)
  have no_o: "\<not> (\<exists>t. sublist t (pre @ butlast opn) \<and> tagEq t openTag)"
  proof
    assume "\<exists>t. sublist t (pre @ butlast opn) \<and> tagEq t openTag"
    then obtain t where sub: "sublist t (pre @ butlast opn)" and t: "tagEq t openTag" by blast
    from t o have len: "length t = length opn" by (simp add: tagEq_length)
    from early_match_position [OF sub len opn_ne, of "inner @ cls @ post"]
    obtain i y where i: "i < length pre"
      and d: "drop i (pre @ opn @ inner @ cls @ post) = t @ y @ inner @ cls @ post" by blast
    from closes [OF c, of "y @ inner" post] obtain r where "scan ?m2 (y @ inner @ cls @ post) = Some r"
      by auto
    moreover have "drop i s = t @ y @ inner @ cls @ post" unfolding s by (rule d)
    ultimately have "?m (drop i s) = Some r"
      using t by (simp add: stripPrefixCI_tagEq)
    with early i show False by simp
  qed
  have no_c: "\<not> (\<exists>t. sublist t (inner @ butlast cls) \<and> tagEq t closeTag)"
  proof
    assume "\<exists>t. sublist t (inner @ butlast cls) \<and> tagEq t closeTag"
    then obtain t where sub: "sublist t (inner @ butlast cls)" and t: "tagEq t closeTag" by blast
    from t c have len: "length t = length cls" by (simp add: tagEq_length)
    from early_match_position [OF sub len cls_ne, of post]
    obtain i y where i: "i < length inner"
      and d: "drop i (inner @ cls @ post) = t @ y @ post" by blast
    have "drop i u = t @ y @ post" unfolding u rest2 by (rule d)
    with t have "?m2 (drop i u) = Some (y @ post)"
      by (simp add: stripPrefixCI_tagEq)
    with early2 i show False by simp
  qed
  from o c no_o no_c have "firstBlock pre opn inner cls" by (simp add: firstBlock_def)
  with s show ?thesis by blast
qed

text \<open>
  Claim C2. Every input that contains an opening and a later closing tag, in any
  mixture of case, splits around its first block; the result has the trimmed text
  between the tags as \<open>thinking\<close>, the trimmed input without the tags and what they
  enclose as \<open>response\<close>, and \<open>hasThinking\<close> true. The first block is the one
  \<open>firstBlock\<close> describes, and for it the result is as stated. In particular the
  input \<open><think>A</think>B\<close> gives \<open>A\<close>, \<open>B\<close> and true.
\<close>
theorem parseThinkingResponse_tagged_block:
  "(containsBlock s \<longrightarrow>
      (\<exists>pre opn inner cls post.
         s = pre @ opn @ inner @ cls @ post \<and> firstBlock pre opn inner cls \<and>
         parseThinkingResponse s =
           \<lparr>thinking = Some (trim inner), response = trim (pre @ post), hasThinking = True\<rparr>)) \<and>
   (firstBlock pre opn inner cls \<longrightarrow>
      parseThinkingResponse (pre @ opn @ inner @ cls @ post) =
        \<lparr>thinking = Some (trim inner), response = trim (pre @ post), hasThinking = True\<rparr>) \<and>
   parseThinkingResponse ''<think>A</think>B'' =
     \<lparr>thinking = Some ''A'', response = ''B'', hasThinking = True\<rparr>"
proof (intro conjI impI)
  assume "containsBlock s"
  from contains_block_first [OF this] obtain pre opn inner cls post
    where "s = pre @ opn @ inner @ cls @ post" and "firstBlock pre opn inner cls" by blast
  then show "\<exists>pre opn inner cls post.
         s = pre @ opn @ inner @ cls @ post \<and> firstBlock pre opn inner cls \<and>
         parseThinkingResponse s =
           \<lparr>thinking = Some (trim inner), response = trim (pre @ post), hasThinking = True\<rparr>"
    using parse_first_block by blast
next
  assume "firstBlock pre opn inner cls"
  then show "parseThinkingResponse (pre @ opn @ inner @ cls @ post) =
        \<lparr>thinking = Some (trim inner), response = trim (pre @ post), hasThinking = True\<rparr>"
    by (rule parse_first_block)
next
  show "parseThinkingResponse ''<think>A</think>B'' =
     \<lparr>thinking = Some ''A'', response = ''B'', hasThinking = True\<rparr>"
    by code_simp
qed

lemma sublist_same_length: "sublist t x \<Longrightarrow> length t = length x \<Longrightarrow> t = x"
  by (auto simp: sublist_def)

theorem parseThinkingResponse_tagged_block_witness:
  "containsBlock ''<think>A</think>B'' \<and>
   firstBlock [] ''<think>'' ''A'' ''</think>'' \<and>
   (\<exists>pre opn inner cls post.
      ''<think>A</think>B'' = pre @ opn @ inner @ cls @ post \<and> firstBlock pre opn inner cls \<and>
      parseThinkingResponse ''<think>A</think>B'' =
        \<lparr>thinking = Some (trim inner), response = trim (pre @ post), hasThinking = True\<rparr>) \<and>
   parseThinkingResponse ''<think>A</think>B'' =
     \<lparr>thinking = Some ''A'', response = ''B'', hasThinking = True\<rparr>"
proof -
  have o: "tagEq ''<think>'' openTag" by (simp add: tagEq_def openTag_def)
  have c: "tagEq ''</think>'' closeTag" by (simp add: tagEq_def closeTag_def)
  have "''<think>A</think>B'' = [] @ ''<think>'' @ ''A'' @ ''</think>'' @ ''B''" by simp
  with o c have cb: "containsBlock ''<think>A</think>B''"
    unfolding containsBlock_def by blast
  have no_o: "\<not> (\<exists>t. sublist t ([] @ butlast ''<think>'') \<and> tagEq t openTag)"
  proof
    assume "\<exists>t. sublist t ([] @ butlast ''<think>'') \<and> tagEq t openTag"
    then obtain t where "sublist t ([] @ butlast ''<think>'')" and "tagEq t openTag" by blast
    then have "length t \<le> 6" and "length t = 7"
      by (auto dest: sublist_length_le tagEq_length simp: openTag_def)
    then show False by simp
  qed
  have no_c: "\<not> (\<exists>t. sublist t (''A'' @ butlast ''</think>'') \<and> tagEq t closeTag)"
  proof
    assume "\<exists>t. sublist t (''A'' @ butlast ''</think>'') \<and> tagEq t closeTag"
    then obtain t where sub: "sublist t (''A'' @ butlast ''</think>'')" and t: "tagEq t closeTag"
      by blast
    from t have "length t = length (''A'' @ butlast ''</think>'')"
      by (auto dest: tagEq_length simp: closeTag_def)
    with sub have "t = ''A'' @ butlast ''</think>''" by (rule sublist_same_length)
    with t show False by (simp add: tagEq_def closeTag_def toUpperChar_def)
  qed
  from o c no_o no_c have fb: "firstBlock [] ''<think>'' ''A'' ''</think>''"
    by (simp add: firstBlock_def)
  have tA: "trim ''A'' = ''A''" and tB: "trim ''B'' = ''B''"
    by (simp_all add: trim_def isWhiteSpace_def)
  from parseThinkingResponse_tagged_block [of "''<think>A</think>B''" "[]" "''<think>''" "''A''" "''</think>''" "''B''"]
  have gen: "containsBlock ''<think>A</think>B'' \<longrightarrow>
      (\<exists>pre opn inner cls post.
         ''<think>A</think>B'' = pre @ opn @ inner @ cls @ post \<and> firstBlock pre opn inner cls \<and>
         parseThinkingResponse ''<think>A</think>B'' =
           \<lparr>thinking = Some (trim inner), response = trim (pre @ post), hasThinking = True\<rparr>)"
    and one: "firstBlock [] ''<think>'' ''A'' ''</think>'' \<longrightarrow>
      parseThinkingResponse ([] @ ''<think>'' @ ''A'' @ ''</think>'' @ ''B'') =
        \<lparr>thinking = Some (trim ''A''), response = trim ([] @ ''B''), hasThinking = True\<rparr>"
    by blast+
  from one fb tA tB have "parseThinkingResponse ''<think>A</think>B'' =
     \<lparr>thinking = Some ''A'', response = ''B'', hasThinking = True\<rparr>" by simp
  with cb fb gen show ?thesis by blast
qed

lemma tryPatterns_Some:
  "tryPatterns ps s = Some r \<Longrightarrow> hasThinking r \<and> (\<exists>g. response r = trim g)"
proof (induction ps)
  case Nil
  then show ?case by simp
next
  case (Cons p ps)
  show ?case
  proof (cases "introPattern p s")
    case None
    with Cons show ?thesis by simp
  next
    case (Some g)
    obtain g1 g2 where g: "g = (g1, g2)" by (cases g)
    show ?thesis
    proof (cases "length g1 > 50")
      case True
      with Cons.prems Some g
      have "r = \<lparr>thinking = Some (trim g1), response = trim g2, hasThinking = True\<rparr>" by simp
      then show ?thesis by auto
    next
      case False
      with Cons Some g show ?thesis by simp
    qed
  qed
qed

lemma response_is_trimmed: "\<exists>g. response (parseThinkingResponse x) = trim g"
proof (cases "thinkRegex x")
  case (Some m)
  obtain before g1 after where "m = (before, g1, after)" by (cases m)
  with Some show ?thesis by (auto simp: parseThinkingResponse_def)
next
  case None
  show ?thesis
  proof (cases "tryPatterns thinkingPatterns x")
    case (Some r)
    with None tryPatterns_Some [OF Some] show ?thesis
      by (simp add: parseThinkingResponse_def)
  next
    case nop: None
    with None show ?thesis by (auto simp: parseThinkingResponse_def)
  qed
qed

lemma no_reasoning_response:
  "\<not> hasThinking (parseThinkingResponse y) \<Longrightarrow> response (parseThinkingResponse y) = trim y"
proof (cases "thinkRegex y")
  case (Some m)
  obtain before g1 after where "m = (before, g1, after)" by (cases m)
  with Some have "hasThinking (parseThinkingResponse y)" by (simp add: parseThinkingResponse_def)
  moreover assume "\<not> hasThinking (parseThinkingResponse y)"
  ultimately show ?thesis by simp
next
  case None
  assume no: "\<not> hasThinking (parseThinkingResponse y)"
  show ?thesis
  proof (cases "tryPatterns thinkingPatterns y")
    case (Some r)
    with None tryPatterns_Some [OF Some] have "hasThinking (parseThinkingResponse y)"
      by (simp add: parseThinkingResponse_def)
    with no show ?thesis by simp
  next
    case nop: None
    with None show ?thesis by (simp add: parseThinkingResponse_def)
  qed
qed

text \<open>
  Claim C3, as the code has it. When the answer extracted from \<open>x\<close> holds nothing
  more to extract (parsing it again reports no reasoning), parsing it again returns
  it unchanged.
\<close>
theorem answer_stable_when_nothing_left:
  assumes "\<not> hasThinking (parseThinkingResponse (response (parseThinkingResponse x)))"
  shows "response (parseThinkingResponse (response (parseThinkingResponse x))) =
         response (parseThinkingResponse x)"
proof -
  obtain g where g: "response (parseThinkingResponse x) = trim g"
    using response_is_trimmed by blast
  from assms have "response (parseThinkingResponse (response (parseThinkingResponse x))) =
                   trim (response (parseThinkingResponse x))"
    by (rule no_reasoning_response)
  also have "\<dots> = response (parseThinkingResponse x)" by (simp add: g trim_idem)
  finally show ?thesis .
qed

theorem answer_stable_when_nothing_left_witness:
  "\<not> hasThinking (parseThinkingResponse (response (parseThinkingResponse ''<think>A</think>B''))) \<and>
   response (parseThinkingResponse (response (parseThinkingResponse ''<think>A</think>B''))) =
     response (parseThinkingResponse ''<think>A</think>B'') \<and>
   response (parseThinkingResponse ''<think>A</think>B'') = ''B''"
proof -
  have h: "\<not> hasThinking (parseThinkingResponse (response (parseThinkingResponse ''<think>A</think>B'')))"
    by code_simp
  have b: "response (parseThinkingResponse ''<think>A</think>B'') = ''B''" by code_simp
  from answer_stable_when_nothing_left [OF h] h b show ?thesis by simp
qed

text \<open>
  Claim C3 as worded holds for every input. Only the first block is removed: with
  two blocks the first answer still holds the second block, and parsing the answer
  again removes it.
\<close>
theorem second_block_counterexample:
  "response (parseThinkingResponse twoBlocks) = ''<think>b</think>c'' \<and>
   response (parseThinkingResponse (response (parseThinkingResponse twoBlocks))) = ''c''"
  by code_simp

section \<open>Metadata cleaning\<close>





































section \<open>Initialization and the chat endpoints\<close>

lemma requested_append: "requested (a @ b) = requested a @ requested b"
  by (induction a rule: requested.induct) simp_all

lemma reported_append: "reported (a @ b) = reported a @ reported b"
  by (induction a rule: reported.induct) simp_all

lemma loadDocuments_collects:
  "fst (loadDocuments w urls (docs, tr)) = docs @ successfulDocs w urls \<and>
   requested (snd (loadDocuments w urls (docs, tr))) = requested tr @ urls \<and>
   reported (snd (loadDocuments w urls (docs, tr))) = reported tr @ failedUrls w urls"
proof (induction urls arbitrary: docs tr)
  case Nil
  show ?case by (simp add: successfulDocs_def failedUrls_def)
next
  case (Cons url urls)
  show ?case
  proof (cases "loadPage w url")
    case (Inr loaded)
    have "loadDocuments w (url # urls) (docs, tr) =
            loadDocuments w urls (docs @ loaded, tr @ [PageRequested url])"
      by (simp add: Inr)
    with Cons [of "docs @ loaded" "tr @ [PageRequested url]"] Inr show ?thesis
      by (simp add: successfulDocs_def failedUrls_def requested_append reported_append)
  next
    case (Inl e)
    obtain msg where e: "e = Error msg" by (cases e)
    have "loadDocuments w (url # urls) (docs, tr) =
            loadDocuments w urls (docs, tr @ [PageRequested url, PageFailed url msg])"
      by (simp add: Inl e)
    with Cons [of docs "tr @ [PageRequested url, PageFailed url msg]"] Inl e show ?thesis
      by (simp add: successfulDocs_def failedUrls_def requested_append reported_append)
  qed
qed

lemma all_fail_no_docs:
  "\<forall>u \<in> set urls. \<exists>e. loadPage w u = Inl e \<Longrightarrow> successfulDocs w urls = []"
  by (induction urls) (auto simp: successfulDocs_def)

text \<open>The state in which the \<open>try\<close> block leaves the loop over the URLs.\<close>

lemma initializeBody_after_loading:
  assumes hello: "invokeModel w (JStr ''Hello'') = Inr greeting"
    and urls: "iterate (get (config w) ''DOCUMENT_URLS'' defaultUrls) = Inr urls"
  shows "successfulDocs w urls = [] \<longrightarrow>
           fst (initializeBody w s) = Inl (Error noDocumentsMessage) \<and>
           vectorstore (snd (initializeBody w s)) = vectorstore s"
    and "successfulDocs w urls \<noteq> [] \<longrightarrow>
           SplitRequested (successfulDocs w urls) \<in> set (trace (snd (initializeBody w s)))"
proof -
  obtain docs tr where l: "loadDocuments w urls ([], trace s @ [ModelInvoked (JStr ''Hello'')]) = (docs, tr)"
    by (cases "loadDocuments w urls ([], trace s @ [ModelInvoked (JStr ''Hello'')])")
  from loadDocuments_collects [of w urls "[]" "trace s @ [ModelInvoked (JStr ''Hello'')]"] l
  have docs: "docs = successfulDocs w urls" by simp
  show "successfulDocs w urls = [] \<longrightarrow>
           fst (initializeBody w s) = Inl (Error noDocumentsMessage) \<and>
           vectorstore (snd (initializeBody w s)) = vectorstore s"
    using docs by (simp add: initializeBody_def Let_def hello urls l noDocumentsMessage_def)
  show "successfulDocs w urls \<noteq> [] \<longrightarrow>
           SplitRequested (successfulDocs w urls) \<in> set (trace (snd (initializeBody w s)))"
    using docs
    by (simp add: initializeBody_def Let_def hello urls l split: sum.splits)
qed

lemma initializeRAG_trace:
  "\<not> isInitializing s \<Longrightarrow>
   trace (snd (initializeRAG w s)) =
     trace (snd (initializeBody w (s\<lparr>isInitializing := True, initializationError := None\<rparr>)))"
  by (simp add: initializeRAG_def Let_def split: prod.splits sum.splits error.splits)

lemma initializeRAG_failure:
  "\<not> isInitializing s \<Longrightarrow>
   fst (initializeBody w (s\<lparr>isInitializing := True, initializationError := None\<rparr>)) = Inl (Error msg) \<Longrightarrow>
   fst (initializeRAG w s) = Inl (Error msg) \<and>
   initializationError (snd (initializeRAG w s)) = Some msg \<and>
   vectorstore (snd (initializeRAG w s)) =
     vectorstore (snd (initializeBody w (s\<lparr>isInitializing := True, initializationError := None\<rparr>)))"
  by (auto simp: initializeRAG_def Let_def split: prod.splits sum.splits error.splits)

text \<open>
  Claim C6. The loop over the URLs requests every URL in turn; a URL that fails is
  reported and adds no document, and the loop goes on, so the documents collected
  are those of the URLs that load. When that leaves documents, they are what is
  handed to the splitter. When every URL fails, \<open>initializeRAG\<close> fails with the
  error that no documents were loaded, records its message, and leaves the vector
  store as it was.
\<close>
theorem ingestion_skips_failed_urls:
  "(fst (loadDocuments w urls ([], tr)) = successfulDocs w urls \<and>
    requested (snd (loadDocuments w urls ([], tr))) = requested tr @ urls \<and>
    reported (snd (loadDocuments w urls ([], tr))) = reported tr @ failedUrls w urls) \<and>
   (\<not> isInitializing s \<and> invokeModel w (JStr ''Hello'') = Inr greeting \<and>
    iterate (get (config w) ''DOCUMENT_URLS'' defaultUrls) = Inr urls \<longrightarrow>
      (successfulDocs w urls \<noteq> [] \<longrightarrow>
         SplitRequested (successfulDocs w urls) \<in> set (trace (snd (initializeRAG w s)))) \<and>
      ((\<forall>u \<in> set urls. \<exists>e. loadPage w u = Inl e) \<longrightarrow>
         fst (initializeRAG w s) = Inl (Error noDocumentsMessage) \<and>
         initializationError (snd (initializeRAG w s)) = Some noDocumentsMessage \<and>
         vectorstore (snd (initializeRAG w s)) = vectorstore s))"
proof (intro conjI impI)
  show "fst (loadDocuments w urls ([], tr)) = successfulDocs w urls"
    using loadDocuments_collects [of w urls "[]" tr] by simp
  show "requested (snd (loadDocuments w urls ([], tr))) = requested tr @ urls"
    using loadDocuments_collects [of w urls "[]" tr] by simp
  show "reported (snd (loadDocuments w urls ([], tr))) = reported tr @ failedUrls w urls"
    using loadDocuments_collects [of w urls "[]" tr] by simp
next
  assume a: "\<not> isInitializing s \<and> invokeModel w (JStr ''Hello'') = Inr greeting \<and>
    iterate (get (config w) ''DOCUMENT_URLS'' defaultUrls) = Inr urls"
    and ne: "successfulDocs w urls \<noteq> []"
  let ?s0 = "s\<lparr>isInitializing := True, initializationError := None\<rparr>"
  from a have hello: "invokeModel w (JStr ''Hello'') = Inr greeting"
    and urls: "iterate (get (config w) ''DOCUMENT_URLS'' defaultUrls) = Inr urls"
    and idle: "\<not> isInitializing s" by simp_all
  from initializeBody_after_loading(2) [OF hello urls, of ?s0] ne
  have "SplitRequested (successfulDocs w urls) \<in> set (trace (snd (initializeBody w ?s0)))"
    by blast
  then show "SplitRequested (successfulDocs w urls) \<in> set (trace (snd (initializeRAG w s)))"
    by (simp only: initializeRAG_trace [OF idle])
next
  assume a: "\<not> isInitializing s \<and> invokeModel w (JStr ''Hello'') = Inr greeting \<and>
    iterate (get (config w) ''DOCUMENT_URLS'' defaultUrls) = Inr urls"
    and fail: "\<forall>u \<in> set urls. \<exists>e. loadPage w u = Inl e"
  let ?s0 = "s\<lparr>isInitializing := True, initializationError := None\<rparr>"
  from a have hello: "invokeModel w (JStr ''Hello'') = Inr greeting"
    and urls: "iterate (get (config w) ''DOCUMENT_URLS'' defaultUrls) = Inr urls"
    and idle: "\<not> isInitializing s" by simp_all
  from fail have "successfulDocs w urls = []" by (rule all_fail_no_docs)
  with initializeBody_after_loading(1) [OF hello urls, of ?s0]
  have f: "fst (initializeBody w ?s0) = Inl (Error noDocumentsMessage)"
    and v: "vectorstore (snd (initializeBody w ?s0)) = vectorstore s" by simp_all
  from initializeRAG_failure [OF idle f] v
  show "fst (initializeRAG w s) = Inl (Error noDocumentsMessage)"
    and "initializationError (snd (initializeRAG w s)) = Some noDocumentsMessage"
    and "vectorstore (snd (initializeRAG w s)) = vectorstore s" by simp_all
qed

theorem ingestion_skips_failed_urls_witness:
  "fst (loadDocuments sampleWorld
          [JStr ''https://ollama.com'', JStr ''https://ollama.com/blog/windows-preview'',
           JStr ''https://ollama.com/blog/openai-compatibility''] ([], [])) =
     [\<lparr>pageContent = ''Ollama'', metadata = JObj [(''source'', JStr ''https://ollama.com'')]\<rparr>] \<and>
   reported (snd (loadDocuments sampleWorld
          [JStr ''https://ollama.com'', JStr ''https://ollama.com/blog/windows-preview'',
           JStr ''https://ollama.com/blog/openai-compatibility''] ([], []))) =
     [(JStr ''https://ollama.com/blog/windows-preview'', ''fetch failed''),
      (JStr ''https://ollama.com/blog/openai-compatibility'', ''fetch failed'')] \<and>
   SplitRequested
     [\<lparr>pageContent = ''Ollama'', metadata = JObj [(''source'', JStr ''https://ollama.com'')]\<rparr>]
     \<in> set (trace (snd (initializeRAG sampleWorld idle))) \<and>
   fst (initializeRAG offlineWorld idle) = Inl (Error noDocumentsMessage) \<and>
   initializationError (snd (initializeRAG offlineWorld idle)) = Some noDocumentsMessage"
proof -
  let ?urls = "[JStr ''https://ollama.com'', JStr ''https://ollama.com/blog/windows-preview'',
                JStr ''https://ollama.com/blog/openai-compatibility'']"
  let ?doc = "\<lparr>pageContent = ''Ollama'', metadata = JObj [(''source'', JStr ''https://ollama.com'')]\<rparr>"
  have idle: "\<not> isInitializing idle" by (simp add: idle_def)
  have hello: "invokeModel sampleWorld (JStr ''Hello'') = Inr ''Hi''"
    by (simp add: sampleWorld_def)
  have hello': "invokeModel offlineWorld (JStr ''Hello'') = Inr ''Hi''"
    by (simp add: offlineWorld_def sampleWorld_def)
  have urls: "iterate (get (config sampleWorld) ''DOCUMENT_URLS'' defaultUrls) = Inr ?urls"
    by code_simp
  have urls': "iterate (get (config offlineWorld) ''DOCUMENT_URLS'' defaultUrls) = Inr ?urls"
    by code_simp
  have good: "successfulDocs sampleWorld ?urls = [?doc]" by code_simp
  have bad: "failedUrls sampleWorld ?urls =
     [(JStr ''https://ollama.com/blog/windows-preview'', ''fetch failed''),
      (JStr ''https://ollama.com/blog/openai-compatibility'', ''fetch failed'')]" by code_simp
  have none: "\<forall>u \<in> set ?urls. \<exists>e. loadPage offlineWorld u = Inl e"
    by (simp add: offlineWorld_def sampleWorld_def)
  from ingestion_skips_failed_urls [of sampleWorld ?urls "[]" idle "''Hi''"] idle hello urls good bad
  have 1: "fst (loadDocuments sampleWorld ?urls ([], [])) = [?doc]"
    and 2: "reported (snd (loadDocuments sampleWorld ?urls ([], []))) =
     [(JStr ''https://ollama.com/blog/windows-preview'', ''fetch failed''),
      (JStr ''https://ollama.com/blog/openai-compatibility'', ''fetch failed'')]"
    and 3: "SplitRequested [?doc] \<in> set (trace (snd (initializeRAG sampleWorld idle)))"
    by simp_all
  from ingestion_skips_failed_urls [of offlineWorld ?urls "[]" idle "''Hi''"] idle hello' urls' none
  have 4: "fst (initializeRAG offlineWorld idle) = Inl (Error noDocumentsMessage)"
    and 5: "initializationError (snd (initializeRAG offlineWorld idle)) = Some noDocumentsMessage"
    by blast+
  from 1 2 3 4 5 show ?thesis by (simp only: simp_thms)
qed

lemma failed_flag: "\<not> inProgress (fst (failed e s))" "isInitializing (snd (failed e s)) = False"
  by (cases e; simp)+

lemma nextPage_flag:
  "isInitializing (snd (nextPage urls docs s)) =
     (isInitializing s \<and> inProgress (fst (nextPage urls docs s)))"
  by (cases urls) (simp_all add: failed_flag)

lemma resume_flag:
  "inProgress c \<Longrightarrow>
   isInitializing (snd (resume w (c, s))) =
     (isInitializing s \<and> inProgress (fst (resume w (c, s))))"
proof (cases c)
  case AwaitModel
  show ?thesis
    by (simp add: AwaitModel failed_flag nextPage_flag split: sum.splits)
next
  case (AwaitPage url urls docs)
  show ?thesis
    by (simp add: AwaitPage nextPage_flag split: sum.splits error.splits)
next
  case (AwaitSplit docs)
  show ?thesis
    by (simp add: AwaitSplit failed_flag split: sum.splits)
next
  case (AwaitStore cleaned)
  show ?thesis
    by (simp add: AwaitStore failed_flag succeeded_def split: sum.splits)
next
  case (Settled r)
  assume "inProgress c"
  with Settled show ?thesis by simp
qed

lemma resume_settled: "\<not> inProgress c \<Longrightarrow> resume w (c, s) = (c, s)"
  by (cases c) simp_all

lemma count_update:
  "i < length xs \<Longrightarrow>
   length (filter P (xs[i := y])) + (if P (xs ! i) then 1 else 0) =
     length (filter P xs) + (if P y then 1 else 0)"
proof (induction xs arbitrary: i)
  case Nil
  then show ?case by simp
next
  case (Cons x xs)
  show ?case
  proof (cases i)
    case 0
    then show ?thesis by simp
  next
    case (Suc n)
    with Cons.prems have "n < length xs" by simp
    then have "length (filter P (xs[n := y])) + (if P (xs ! n) then 1 else 0) =
               length (filter P xs) + (if P y then 1 else 0)"
      by (rule Cons.IH)
    with Suc show ?thesis by simp
  qed
qed

lemma count_positive: "x \<in> set xs \<Longrightarrow> P x \<Longrightarrow> 0 < length (filter P xs)"
  by (induction xs) auto

lemma turnStep_oneAtATime:
  assumes inv: "oneAtATime (calls, s)"
  shows "oneAtATime (turnStep w t (calls, s))"
proof (cases t)
  case Call
  from inv show ?thesis
    by (simp add: Call oneAtATime_def startInitialize_def)
next
  case (Resume i)
  show ?thesis
  proof (cases "i < length calls")
    case False
    with inv show ?thesis by (simp add: Resume)
  next
    case True
    show ?thesis
    proof (cases "inProgress (calls ! i)")
      case False
      then have "resume w (calls ! i, s) = (calls ! i, s)" by (rule resume_settled)
      with inv True show ?thesis by (simp add: Resume)
    next
      case busy: True
      from True have "calls ! i \<in> set calls" by simp
      then have "0 < length (filter inProgress calls)" using busy by (rule count_positive)
      with inv have flag: "isInitializing s" and one: "length (filter inProgress calls) = 1"
        by (auto simp: oneAtATime_def split: if_splits)
      define c' where "c' = fst (resume w (calls ! i, s))"
      define s' where "s' = snd (resume w (calls ! i, s))"
      from busy have "isInitializing s' = (isInitializing s \<and> inProgress c')"
        unfolding c'_def s'_def by (rule resume_flag)
      with flag have f: "isInitializing s' = inProgress c'" by simp
      from True have "length (filter inProgress (calls[i := c'])) +
            (if inProgress (calls ! i) then 1 else 0) =
          length (filter inProgress calls) + (if inProgress c' then 1 else 0)"
        by (rule count_update)
      with busy one have "length (filter inProgress (calls[i := c'])) =
          (if inProgress c' then 1 else 0)"
        by simp
      with f have "oneAtATime (calls[i := c'], s')" by (simp add: oneAtATime_def)
      with True show ?thesis by (simp add: Resume c'_def s'_def)
    qed
  qed
qed

lemma turns_oneAtATime: "oneAtATime c \<Longrightarrow> oneAtATime (turns w ts c)"
proof (induction ts arbitrary: c)
  case Nil
  then show ?case by (simp add: turns_def)
next
  case (Cons t ts)
  obtain calls s where c: "c = (calls, s)" by (cases c)
  from Cons.prems have "oneAtATime (turnStep w t (calls, s))"
    unfolding c by (rule turnStep_oneAtATime)
  then have "oneAtATime (turns w ts (turnStep w t (calls, s)))" by (rule Cons.IH)
  then show ?case by (simp add: turns_def c)
qed

lemma reachable_count:
  assumes "\<not> isInitializing s"
  shows "length (filter inProgress (fst (turns w ts ([], s)))) =
           (if isInitializing (snd (turns w ts ([], s))) then 1 else 0)"
proof -
  from assms have "oneAtATime ([], s)" by (simp add: oneAtATime_def)
  then have "oneAtATime (turns w ts ([], s))" by (rule turns_oneAtATime)
  then show ?thesis by (simp add: oneAtATime_def)
qed

lemma reachable_guarded:
  assumes idle: "\<not> isInitializing s"
    and busy: "\<exists>c \<in> set (fst (turns w ts ([], s))). inProgress c"
  shows "turnStep w Call (turns w ts ([], s)) =
           (fst (turns w ts ([], s)) @ [Settled (Inr ())], snd (turns w ts ([], s)))"
proof -
  obtain calls s' where r: "turns w ts ([], s) = (calls, s')" by (cases "turns w ts ([], s)")
  from busy obtain c where "c \<in> set calls" and "inProgress c" by (auto simp: r)
  then have "0 < length (filter inProgress calls)" by (rule count_positive)
  moreover from idle have "length (filter inProgress calls) = (if isInitializing s' then 1 else 0)"
    using reachable_count [of s w ts] by (simp add: r)
  ultimately have "isInitializing s'" by (simp split: if_splits)
  then show ?thesis by (simp add: r startInitialize_def)
qed

lemma resumeTimes_Settled: "resumeTimes w n (Settled r, s) = (Settled r, s)"
  by (induction n) simp_all

lemma resumeTimes_failed: "resumeTimes w n (failed e s) = failed e s"
  by (cases e) (simp add: resumeTimes_Settled)

lemma resumeTimes_pages:
  "resumeTimes w (length urls + n) (nextPage urls docs s) =
     resumeTimes w n
       (nextPage [] (fst (loadDocuments w urls (docs, trace s)))
          (s\<lparr>trace := snd (loadDocuments w urls (docs, trace s))\<rparr>))"
proof (induction urls arbitrary: docs s)
  case Nil
  show ?case by simp
next
  case (Cons url urls)
  show ?case
  proof (cases "loadPage w url")
    case (Inr loadedDocs)
    have "resumeTimes w (length (url # urls) + n) (nextPage (url # urls) docs s) =
          resumeTimes w (length urls + n)
            (nextPage urls (docs @ loadedDocs) (s\<lparr>trace := trace s @ [PageRequested url]\<rparr>))"
      by (simp add: Inr)
    also have "\<dots> = resumeTimes w n
       (nextPage []
          (fst (loadDocuments w urls (docs @ loadedDocs, trace s @ [PageRequested url])))
          (s\<lparr>trace := snd (loadDocuments w urls (docs @ loadedDocs, trace s @ [PageRequested url]))\<rparr>))"
      by (simp only: Cons.IH) simp
    finally show ?thesis by (simp add: Inr)
  next
    case (Inl e)
    obtain msg where e: "e = Error msg" by (cases e)
    have "resumeTimes w (length (url # urls) + n) (nextPage (url # urls) docs s) =
          resumeTimes w (length urls + n)
            (nextPage urls docs (s\<lparr>trace := trace s @ [PageRequested url, PageFailed url msg]\<rparr>))"
      by (simp add: Inl e)
    also have "\<dots> = resumeTimes w n
       (nextPage []
          (fst (loadDocuments w urls (docs, trace s @ [PageRequested url, PageFailed url msg])))
          (s\<lparr>trace := snd (loadDocuments w urls
                                (docs, trace s @ [PageRequested url, PageFailed url msg]))\<rparr>))"
      by (simp only: Cons.IH) simp
    finally show ?thesis by (simp add: Inl e)
  qed
qed

lemma runAlone_settles:
  "runAlone w s = (Settled (fst (initializeRAG w s)), snd (initializeRAG w s))"
proof (cases "isInitializing s")
  case True
  then show ?thesis by (simp add: runAlone_def startInitialize_def initializeRAG_def)
next
  case idle: False
  define s1 where "s1 = s\<lparr>isInitializing := True, initializationError := None,
            chatModel := Some (''http://'' @ ollamaAddress w),
            trace := trace s @ [ModelInvoked (JStr ''Hello'')]\<rparr>"
  define n where "n = awaitsLeft w AwaitModel"
  from idle have start: "runAlone w s = resumeTimes w n (AwaitModel, s1)"
    by (simp add: runAlone_def startInitialize_def s1_def n_def)
  show ?thesis
  proof (cases "invokeModel w (JStr ''Hello'')")
    case (Inl e)
    have "n = Suc (n - 1)" by (simp add: n_def)
    then have "resumeTimes w n (AwaitModel, s1) = resumeTimes w (n - 1) (resume w (AwaitModel, s1))"
      by (metis resumeTimes.simps(2))
    with Inl idle start show ?thesis
      by (simp add: resumeTimes_Settled initializeRAG_def initializeBody_def Let_def s1_def)
  next
    case model: (Inr hello)
    show ?thesis
    proof (cases "iterate (get (config w) ''DOCUMENT_URLS'' defaultUrls)")
      case (Inl e)
      obtain msg where e: "e = Error msg" by (cases e)
      have "n = Suc (n - 1)" by (simp add: n_def)
      then have "resumeTimes w n (AwaitModel, s1) =
                 resumeTimes w (n - 1) (resume w (AwaitModel, s1))"
        by (metis resumeTimes.simps(2))
      with Inl e model idle start show ?thesis
        by (simp add: resumeTimes_Settled initializeRAG_def initializeBody_def Let_def s1_def)
    next
      case urls: (Inr urls)
      obtain docs tr where ld:
        "loadDocuments w urls ([], trace s @ [ModelInvoked (JStr ''Hello'')]) = (docs, tr)"
        by (cases "loadDocuments w urls ([], trace s @ [ModelInvoked (JStr ''Hello'')])")
      define s2 where "s2 = s1\<lparr>trace := tr\<rparr>"
      from urls have "n = Suc (length urls + 2)" by (simp add: n_def)
      then have "resumeTimes w n (AwaitModel, s1) =
                 resumeTimes w (length urls + 2) (resume w (AwaitModel, s1))"
        by simp
      also from model urls have "\<dots> = resumeTimes w (length urls + 2) (nextPage urls [] s1)"
        by simp
      also have "\<dots> = resumeTimes w 2
          (nextPage [] (fst (loadDocuments w urls ([], trace s1)))
             (s1\<lparr>trace := snd (loadDocuments w urls ([], trace s1))\<rparr>))"
        by (rule resumeTimes_pages)
      also from ld have "\<dots> = resumeTimes w 2 (nextPage [] docs s2)"
        by (simp add: s1_def s2_def)
      finally have run: "runAlone w s = resumeTimes w 2 (nextPage [] docs s2)"
        using start by simp
      show ?thesis
      proof (cases "length docs = 0")
        case True
        with run model urls ld idle show ?thesis
          by (simp add: resumeTimes_Settled numeral_2_eq_2 initializeRAG_def initializeBody_def
                        Let_def s1_def s2_def)
      next
        case some: False
        show ?thesis
        proof (cases "splitDocuments w (get (config w) ''CHUNK_SIZE'' (JNum 1000))
                        (get (config w) ''CHUNK_OVERLAP'' (JNum 200)) docs")
          case (Inl e)
          obtain msg where e: "e = Error msg" by (cases e)
          from run model urls ld idle some Inl e show ?thesis
            by (simp add: resumeTimes_Settled numeral_2_eq_2 initializeRAG_def initializeBody_def
                          Let_def s1_def s2_def)
        next
          case split: (Inr docSplits)
          show ?thesis
          proof (cases "inlineCleanAll (rt w) 0 docSplits")
            case (Inl e)
            obtain msg where e: "e = Error msg" by (cases e)
            from run model urls ld idle some split Inl e show ?thesis
              by (simp add: resumeTimes_Settled numeral_2_eq_2 initializeRAG_def
                            initializeBody_def Let_def s1_def s2_def)
          next
            case clean: (Inr cleaned)
            show ?thesis
            proof (cases "fromDocuments w cleaned")
              case (Inl e)
              from run model urls ld idle some split clean Inl show ?thesis
                by (simp add: numeral_2_eq_2 initializeRAG_def initializeBody_def
                              Let_def s1_def s2_def)
            next
              case (Inr store)
              from run model urls ld idle some split clean Inr show ?thesis
                by (simp add: numeral_2_eq_2 initializeRAG_def initializeBody_def
                              Let_def s1_def s2_def succeeded_def)
            qed
          qed
        qed
      qed
    qed
  qed
qed

lemma initializeRAG_clears:
  "\<not> isInitializing s \<Longrightarrow> \<not> isInitializing (snd (initializeRAG w s))"
  by (simp add: initializeRAG_def Let_def split: prod.splits sum.splits error.splits)

text \<open>
  Claim C8. A call of \<open>initializeRAG\<close> made while the flag \<open>isInitializing\<close> is set
  settles at once with success and changes nothing, so it calls no capability; a
  call made while the flag is clear sets the flag before its first \<open>await\<close>. A call
  that is resumed and settles, by returning or by throwing, leaves the flag clear;
  one that reaches its next \<open>await\<close> leaves the flag as it was. Hence, however calls
  and resumptions interleave from a state with the flag clear, the flag is set
  exactly when a call is in progress, at most one call is, and a call that arrives
  meanwhile is such a no-op. A call that nothing interleaves with settles, with the
  outcome and the state of \<open>initializeRAG\<close> taken as one step, and with the flag
  clear. The initialize endpoint answers with success and changes nothing when it
  is called during an initialization, and answers that the system is already
  initialized, again changing nothing, once the vector store exists.
\<close>
theorem initialization_guard:
  "(isInitializing s \<longrightarrow> startInitialize w s = (Settled (Inr ()), s)) \<and>
   (\<not> isInitializing s \<longrightarrow>
      fst (startInitialize w s) = AwaitModel \<and> isInitializing (snd (startInitialize w s))) \<and>
   (inProgress c \<longrightarrow>
      isInitializing (snd (resume w (c, s))) =
        (isInitializing s \<and> inProgress (fst (resume w (c, s))))) \<and>
   (\<not> isInitializing s \<longrightarrow>
      length (filter inProgress (fst (turns w ts ([], s)))) =
        (if isInitializing (snd (turns w ts ([], s))) then 1 else 0)) \<and>
   (\<not> isInitializing s \<and> (\<exists>c \<in> set (fst (turns w ts ([], s))). inProgress c) \<longrightarrow>
      turnStep w Call (turns w ts ([], s)) =
        (fst (turns w ts ([], s)) @ [Settled (Inr ())], snd (turns w ts ([], s)))) \<and>
   runAlone w s = (Settled (fst (initializeRAG w s)), snd (initializeRAG w s)) \<and>
   (\<not> isInitializing s \<longrightarrow> \<not> isInitializing (snd (runAlone w s))) \<and>
   (isInitializing s \<and> vectorstore s = None \<longrightarrow>
      initializeHandler w s =
        (\<lparr>status = 200,
          body = JObj [(''success'', JBool True),
                       (''message'', JStr ''RAG system initialized successfully'')]\<rparr>, s)) \<and>
   (vectorstore s \<noteq> None \<longrightarrow>
      initializeHandler w s =
        (\<lparr>status = 200,
          body = JObj [(''success'', JBool True),
                       (''message'', JStr ''RAG system already initialized'')]\<rparr>, s))"
proof (intro conjI impI)
  assume "isInitializing s"
  then show "startInitialize w s = (Settled (Inr ()), s)" by (simp add: startInitialize_def)
next
  assume "\<not> isInitializing s"
  then show "fst (startInitialize w s) = AwaitModel" by (simp add: startInitialize_def)
next
  assume "\<not> isInitializing s"
  then show "isInitializing (snd (startInitialize w s))" by (simp add: startInitialize_def)
next
  assume "inProgress c"
  then show "isInitializing (snd (resume w (c, s))) =
        (isInitializing s \<and> inProgress (fst (resume w (c, s))))"
    by (rule resume_flag)
next
  assume "\<not> isInitializing s"
  then show "length (filter inProgress (fst (turns w ts ([], s)))) =
        (if isInitializing (snd (turns w ts ([], s))) then 1 else 0)"
    by (rule reachable_count)
next
  assume "\<not> isInitializing s \<and> (\<exists>c \<in> set (fst (turns w ts ([], s))). inProgress c)"
  then have "\<not> isInitializing s" and "\<exists>c \<in> set (fst (turns w ts ([], s))). inProgress c"
    by simp_all
  then show "turnStep w Call (turns w ts ([], s)) =
        (fst (turns w ts ([], s)) @ [Settled (Inr ())], snd (turns w ts ([], s)))"
    by (rule reachable_guarded)
next
  show "runAlone w s = (Settled (fst (initializeRAG w s)), snd (initializeRAG w s))"
    by (rule runAlone_settles)
next
  assume "\<not> isInitializing s"
  then have "\<not> isInitializing (snd (initializeRAG w s))" by (rule initializeRAG_clears)
  then show "\<not> isInitializing (snd (runAlone w s))" by (simp add: runAlone_settles)
next
  assume "isInitializing s \<and> vectorstore s = None"
  then show "initializeHandler w s =
        (\<lparr>status = 200,
          body = JObj [(''success'', JBool True),
                       (''message'', JStr ''RAG system initialized successfully'')]\<rparr>, s)"
    by (simp add: initializeHandler_def initializeRAG_def)
next
  assume "vectorstore s \<noteq> None"
  then show "initializeHandler w s =
        (\<lparr>status = 200,
          body = JObj [(''success'', JBool True),
                       (''message'', JStr ''RAG system already initialized'')]\<rparr>, s)"
    by (simp add: initializeHandler_def)
qed

theorem initialization_guard_witness:
  "length (filter inProgress (fst (turns sampleWorld busyTurns ([], idle)))) = 1 \<and>
   turnStep sampleWorld Call (turns sampleWorld busyTurns ([], idle)) =
     (fst (turns sampleWorld busyTurns ([], idle)) @ [Settled (Inr ())],
      snd (turns sampleWorld busyTurns ([], idle))) \<and>
   fst (turns sampleWorld allTurns ([], idle)) =
     [Settled (Inr ()), Settled (Inr ()), Settled (Inr ())] \<and>
   \<not> isInitializing (snd (turns sampleWorld allTurns ([], idle))) \<and>
   fst (runAlone sampleWorld idle) = Settled (Inr ()) \<and>
   \<not> isInitializing (snd (runAlone sampleWorld idle)) \<and>
   fst (runAlone offlineWorld idle) = Settled (Inl (Error noDocumentsMessage)) \<and>
   \<not> isInitializing (snd (runAlone offlineWorld idle)) \<and>
   initializeHandler offlineWorld (snd (initializeRAG sampleWorld idle)) =
     (\<lparr>status = 200,
       body = JObj [(''success'', JBool True),
                    (''message'', JStr ''RAG system already initialized'')]\<rparr>,
      snd (initializeRAG sampleWorld idle))"
proof -
  have idle: "\<not> isInitializing idle" by (simp add: idle_def)
  have flag: "isInitializing (snd (turns sampleWorld busyTurns ([], idle)))" by code_simp
  have busy: "\<exists>c \<in> set (fst (turns sampleWorld busyTurns ([], idle))). inProgress c"
    by code_simp
  have finished: "fst (turns sampleWorld allTurns ([], idle)) =
     [Settled (Inr ()), Settled (Inr ()), Settled (Inr ())]" by code_simp
  have ok: "fst (initializeRAG sampleWorld idle) = Inr ()" by code_simp
  have noDocs: "fst (initializeRAG offlineWorld idle) = Inl (Error noDocumentsMessage)"
    by code_simp
  have ready: "vectorstore (snd (initializeRAG sampleWorld idle)) \<noteq> None" by code_simp
  note busyCase = initialization_guard [of idle sampleWorld AwaitModel busyTurns]
  note allCase = initialization_guard [of idle sampleWorld AwaitModel allTurns]
  note offCase = initialization_guard [of idle offlineWorld AwaitModel allTurns]
  note readyCase =
    initialization_guard [of "snd (initializeRAG sampleWorld idle)" offlineWorld AwaitModel allTurns]
  note tail = conjunct2 [THEN conjunct2, THEN conjunct2]
  from busyCase [THEN tail, THEN conjunct1, THEN mp, OF idle] flag
  have 1: "length (filter inProgress (fst (turns sampleWorld busyTurns ([], idle)))) = 1"
    by (simp only: if_True)
  have 2: "turnStep sampleWorld Call (turns sampleWorld busyTurns ([], idle)) =
     (fst (turns sampleWorld busyTurns ([], idle)) @ [Settled (Inr ())],
      snd (turns sampleWorld busyTurns ([], idle)))"
    by (rule busyCase [THEN tail, THEN conjunct2, THEN conjunct1, THEN mp, OF conjI, OF idle busy])
  from allCase [THEN tail, THEN conjunct1, THEN mp, OF idle] finished
  have 3: "\<not> isInitializing (snd (turns sampleWorld allTurns ([], idle)))"
    by (auto split: if_splits)
  from allCase [THEN tail, THEN conjunct2, THEN conjunct2, THEN conjunct1] ok
  have 4: "fst (runAlone sampleWorld idle) = Settled (Inr ())" by simp
  have 5: "\<not> isInitializing (snd (runAlone sampleWorld idle))"
    by (rule allCase [THEN tail, THEN tail, THEN conjunct1, THEN mp, OF idle])
  from offCase [THEN tail, THEN conjunct2, THEN conjunct2, THEN conjunct1] noDocs
  have 6: "fst (runAlone offlineWorld idle) = Settled (Inl (Error noDocumentsMessage))" by simp
  have 7: "\<not> isInitializing (snd (runAlone offlineWorld idle))"
    by (rule offCase [THEN tail, THEN tail, THEN conjunct1, THEN mp, OF idle])
  have 8: "initializeHandler offlineWorld (snd (initializeRAG sampleWorld idle)) =
     (\<lparr>status = 200,
       body = JObj [(''success'', JBool True),
                    (''message'', JStr ''RAG system already initialized'')]\<rparr>,
      snd (initializeRAG sampleWorld idle))"
    by (rule readyCase [THEN tail, THEN tail, THEN conjunct2, THEN conjunct2, THEN mp, OF ready])
  from 1 2 finished 3 4 5 6 7 8 show ?thesis by (intro conjI)
qed

lemma getProp_filter_out: "getProp (filter (\<lambda>(k, x). k \<noteq> key) ps) key = None"
  by (auto simp: getProp_None_iff)

text \<open>
  Claim C10. A request to either chat endpoint whose \<open>topic\<close> (or \<open>question\<close>) field
  is present with a falsy value gets the 400 reply that a request without the field
  gets, and the server state, with its record of calls, is unchanged: the chain is
  not invoked.
\<close>
theorem falsy_field_rejected:
  "(getProp ps ''topic'' = Some v \<and> \<not> truthy v \<longrightarrow>
      beforeRagHandler w s (JObj ps) =
        (\<lparr>status = 400, body = JObj [(''error'', JStr ''Topic is required'')]\<rparr>, s) \<and>
      beforeRagHandler w s (JObj (filter (\<lambda>(k, x). k \<noteq> ''topic'') ps)) =
        (\<lparr>status = 400, body = JObj [(''error'', JStr ''Topic is required'')]\<rparr>, s)) \<and>
   (getProp ps ''question'' = Some v \<and> \<not> truthy v \<longrightarrow>
      withRagHandler w s (JObj ps) =
        (\<lparr>status = 400, body = JObj [(''error'', JStr ''Question is required'')]\<rparr>, s) \<and>
      withRagHandler w s (JObj (filter (\<lambda>(k, x). k \<noteq> ''question'') ps)) =
        (\<lparr>status = 400, body = JObj [(''error'', JStr ''Question is required'')]\<rparr>, s))"
  by (simp add: beforeRagHandler_def withRagHandler_def getMember_def getProp_filter_out Let_def)

theorem falsy_field_rejected_witness:
  "beforeRagHandler sampleWorld (snd (initializeRAG sampleWorld idle))
     (JObj [(''topic'', JStr ''''), (''enableThinking'', JBool False)]) =
     (\<lparr>status = 400, body = JObj [(''error'', JStr ''Topic is required'')]\<rparr>,
      snd (initializeRAG sampleWorld idle)) \<and>
   beforeRagHandler sampleWorld (snd (initializeRAG sampleWorld idle))
     (JObj [(''enableThinking'', JBool False)]) =
     (\<lparr>status = 400, body = JObj [(''error'', JStr ''Topic is required'')]\<rparr>,
      snd (initializeRAG sampleWorld idle)) \<and>
   withRagHandler sampleWorld (snd (initializeRAG sampleWorld idle))
     (JObj [(''question'', JNum 0)]) =
     (\<lparr>status = 400, body = JObj [(''error'', JStr ''Question is required'')]\<rparr>,
      snd (initializeRAG sampleWorld idle)) \<and>
   withRagHandler sampleWorld (snd (initializeRAG sampleWorld idle)) (JObj []) =
     (\<lparr>status = 400, body = JObj [(''error'', JStr ''Question is required'')]\<rparr>,
      snd (initializeRAG sampleWorld idle))"
proof -
  let ?s = "snd (initializeRAG sampleWorld idle)"
  have t: "getProp [(''topic'', JStr ''''), (''enableThinking'', JBool False)] ''topic'' = Some (JStr '''') \<and>
           \<not> truthy (JStr '''')" by simp
  have q: "getProp [(''question'', JNum 0)] ''question'' = Some (JNum 0) \<and> \<not> truthy (JNum 0)"
    by simp
  from falsy_field_rejected [of "[(''topic'', JStr ''''), (''enableThinking'', JBool False)]"
         "JStr ''''" sampleWorld ?s] t
  have 1: "beforeRagHandler sampleWorld ?s
             (JObj [(''topic'', JStr ''''), (''enableThinking'', JBool False)]) =
           (\<lparr>status = 400, body = JObj [(''error'', JStr ''Topic is required'')]\<rparr>, ?s)"
    and 2: "beforeRagHandler sampleWorld ?s
             (JObj (filter (\<lambda>(k, x). k \<noteq> ''topic'')
                      [(''topic'', JStr ''''), (''enableThinking'', JBool False)])) =
           (\<lparr>status = 400, body = JObj [(''error'', JStr ''Topic is required'')]\<rparr>, ?s)"
    by blast+
  from falsy_field_rejected [of "[(''question'', JNum 0)]" "JNum 0" sampleWorld ?s] q
  have 3: "withRagHandler sampleWorld ?s (JObj [(''question'', JNum 0)]) =
           (\<lparr>status = 400, body = JObj [(''error'', JStr ''Question is required'')]\<rparr>, ?s)"
    and 4: "withRagHandler sampleWorld ?s
              (JObj (filter (\<lambda>(k, x). k \<noteq> ''question'') [(''question'', JNum 0)])) =
           (\<lparr>status = 400, body = JObj [(''error'', JStr ''Question is required'')]\<rparr>, ?s)"
    by blast+
  have f2: "filter (\<lambda>(k, x). k \<noteq> ''topic'')
              [(''topic'', JStr ''''), (''enableThinking'', JBool False)] =
            [(''enableThinking'', JBool False)]" by simp
  have f4: "filter (\<lambda>(k, x :: jsval). k \<noteq> ''question'') [(''question'', JNum 0)] = []" by simp
  from 1 2 3 4 show ?thesis unfolding f2 f4 by (simp only: simp_thms)
qed

end
